theory Spec2Isabelle
  imports Complex_Main "HOL-Library.Word" "HOL-Library.Multiset" "HOL-Library.Sublist"
begin

unbundle bit_operations_syntax

section \<open>Results of calls that may panic\<close>

text \<open>
  A Go call either returns or panics (a panic in any goroutine ends the process).
  \<open>Panics\<close> is the panic, \<open>Returns v\<close> the normal return with value \<open>v\<close>.
\<close>

datatype 'a outcome = Panics | Returns 'a

section \<open>Images (Go packages image, image/color, image/draw)\<close>

text \<open>
  The standard library is not part of the repository; the definitions of this section
  follow its documented behaviour for exactly the calls \<open>convertTo8Bit\<close> makes.
  Go's \<open>int\<close> coordinates are unbounded integers here; \<open>NewRGBA\<close> keeps the
  library's check that the pixel buffer of a rectangle fits an \<open>int\<close> of 64 bits.
\<close>

type_synonym uint8 = "8 word"
type_synonym uint32 = "32 word"

record Point =
  X :: int
  Y :: int

record Rectangle =
  Min_r :: Point
  Max_r :: Point

definition Pt :: "int \<Rightarrow> int \<Rightarrow> Point" where
  "Pt x y = \<lparr>X = x, Y = y\<rparr>"

definition ZR :: Rectangle where
  "ZR = \<lparr>Min_r = Pt 0 0, Max_r = Pt 0 0\<rparr>"

definition Dx :: "Rectangle \<Rightarrow> int" where
  "Dx r = X (Max_r r) - X (Min_r r)"

definition Dy :: "Rectangle \<Rightarrow> int" where
  "Dy r = Y (Max_r r) - Y (Min_r r)"

definition Empty :: "Rectangle \<Rightarrow> bool" where
  "Empty r = (X (Min_r r) \<ge> X (Max_r r) \<or> Y (Min_r r) \<ge> Y (Max_r r))"

definition In :: "Point \<Rightarrow> Rectangle \<Rightarrow> bool" where
  "In p r = (X (Min_r r) \<le> X p \<and> X p < X (Max_r r) \<and>
             Y (Min_r r) \<le> Y p \<and> Y p < Y (Max_r r))"

definition Sub_p :: "Point \<Rightarrow> Point \<Rightarrow> Point" where
  "Sub_p p q = Pt (X p - X q) (Y p - Y q)"

definition Add_r :: "Rectangle \<Rightarrow> Point \<Rightarrow> Rectangle" where
  "Add_r r p = \<lparr>Min_r = Pt (X (Min_r r) + X p) (Y (Min_r r) + Y p),
               Max_r = Pt (X (Max_r r) + X p) (Y (Max_r r) + Y p)\<rparr>"

definition Intersect :: "Rectangle \<Rightarrow> Rectangle \<Rightarrow> Rectangle" where
  "Intersect r s =
     (let r' = \<lparr>Min_r = Pt (max (X (Min_r r)) (X (Min_r s))) (max (Y (Min_r r)) (Y (Min_r s))),
                Max_r = Pt (min (X (Max_r r)) (X (Max_r s))) (min (Y (Max_r r)) (Y (Max_r s)))\<rparr>
      in if Empty r' then ZR else r')"

text \<open>
  \<open>color.RGBA\<close>: four 8-bit channels, alpha-premultiplied. Its method \<open>RGBA()\<close>
  widens each channel \<open>c\<close> to \<open>c | c << 8\<close> in a \<open>uint32\<close>.
\<close>

record color_RGBA =
  R :: uint8
  G :: uint8
  B :: uint8
  A :: uint8

definition color_zero :: color_RGBA where
  "color_zero = \<lparr>R = 0, G = 0, B = 0, A = 0\<rparr>"

type_synonym rgba32 = "uint32 \<times> uint32 \<times> uint32 \<times> uint32"

definition widen :: "uint8 \<Rightarrow> uint32" where
  "widen c = (ucast c) OR push_bit 8 (ucast c)"

definition RGBA_of :: "color_RGBA \<Rightarrow> rgba32" where
  "RGBA_of c = (widen (R c), widen (G c), widen (B c), widen (A c))"

text \<open>
  \<open>image.RGBA\<close>: the rectangle \<open>Rect\<close> and the pixel buffer. The byte slice
  \<open>Pix\<close> with its \<open>Stride\<close> is represented by the colour stored for each
  coordinate: \<open>Pix p (x, y)\<close> stands for the four bytes at \<open>PixOffset(x, y)\<close>.
\<close>

record RGBA =
  Pix :: "int \<times> int \<Rightarrow> color_RGBA"
  Rect :: Rectangle

text \<open>
  Any other implementation of the interface \<open>image.Image\<close> (16-bit, paletted, gray,
  ...) is given by its bounds and by what \<open>At(x, y).RGBA()\<close> returns.
\<close>

record GenericImage =
  Bounds_g :: Rectangle
  At_g :: "int \<times> int \<Rightarrow> rgba32"

datatype image = RGBAImage RGBA | OtherImage GenericImage

fun Bounds :: "image \<Rightarrow> Rectangle" where
  "Bounds (RGBAImage p) = Rect p"
| "Bounds (OtherImage g) = Bounds_g g"

definition RGBAAt :: "RGBA \<Rightarrow> int \<Rightarrow> int \<Rightarrow> color_RGBA" where
  "RGBAAt p x y = (if \<not> In (Pt x y) (Rect p) then color_zero else Pix p (x, y))"

fun At :: "image \<Rightarrow> int \<Rightarrow> int \<Rightarrow> rgba32" where
  "At (RGBAImage p) x y = RGBA_of (RGBAAt p x y)"
| "At (OtherImage g) x y = At_g g (x, y)"

definition maxInt :: int where
  "maxInt = 2 ^ 63 - 1"

text \<open>
  \<open>image.NewRGBA(r)\<close> panics when \<open>r\<close> has a negative width or height or when
  \<open>4 * Dx * Dy\<close> overflows; otherwise the buffer is zeroed.
\<close>

definition NewRGBA :: "Rectangle \<Rightarrow> RGBA outcome" where
  "NewRGBA r =
     (if Dx r < 0 \<or> Dy r < 0 \<or> 4 * Dx r \<ge> 2 ^ 64 \<or> 4 * Dx r * Dy r > maxInt then Panics
      else Returns \<lparr>Pix = (\<lambda>_. color_zero), Rect = r\<rparr>)"

text \<open>
  \<open>draw.clip\<close>: the destination rectangle is cut down to the destination's bounds
  and to the source's bounds translated by \<open>r.Min - sp\<close>; the source point moves with
  the rectangle's corner.
\<close>

definition clip :: "Rectangle \<Rightarrow> Rectangle \<Rightarrow> Rectangle \<Rightarrow> Point \<Rightarrow> Rectangle \<times> Point" where
  "clip dstB r srcB sp =
     (let orig = Min_r r;
          r1 = Intersect r dstB;
          r2 = Intersect r1 (Add_r srcB (Sub_p orig sp));
          dx = X (Min_r r2) - X orig;
          dy = Y (Min_r r2) - Y orig
      in if dx = 0 \<and> dy = 0 then (r2, sp) else (r2, Pt (X sp + dx) (Y sp + dy)))"

definition to8 :: "rgba32 \<Rightarrow> color_RGBA" where
  "to8 c = (case c of (sr, sg, sb, sa) \<Rightarrow>
     \<lparr>R = ucast (drop_bit 8 sr), G = ucast (drop_bit 8 sg),
      B = ucast (drop_bit 8 sb), A = ucast (drop_bit 8 sa)\<rparr>)"

text \<open>
  What \<open>draw.Draw(dst, r, src, sp, draw.Src)\<close> stores for the source pixel at
  \<open>(sx, sy)\<close>: the bytes of an \<open>*image.RGBA\<close> source are copied, any other source
  is read through \<open>At(sx, sy).RGBA()\<close> and each 16-bit channel cut to its high byte.
\<close>

fun src_pixel :: "image \<Rightarrow> int \<Rightarrow> int \<Rightarrow> color_RGBA" where
  "src_pixel (RGBAImage p) sx sy = Pix p (sx, sy)"
| "src_pixel (OtherImage g) sx sy = to8 (At_g g (sx, sy))"

text \<open>
  \<open>draw.Draw\<close> with operator \<open>Src\<close> and no mask: \<open>r.Min\<close> in the destination is
  aligned with \<open>sp\<close> in the source, and every pixel of the clipped rectangle is
  replaced; pixels outside it keep their value.
\<close>

definition Draw_Src :: "RGBA \<Rightarrow> Rectangle \<Rightarrow> image \<Rightarrow> Point \<Rightarrow> RGBA" where
  "Draw_Src dst r src sp =
     (case clip (Rect dst) r (Bounds src) sp of (r', sp') \<Rightarrow>
        if Empty r' then dst
        else dst\<lparr>Pix := (\<lambda>(x, y).
               if In (Pt x y) r'
               then src_pixel src (X sp' + (x - X (Min_r r'))) (Y sp' + (y - Y (Min_r r')))
               else Pix dst (x, y))\<rparr>)"

subsection \<open>convertTo8Bit\<close>

text \<open>
  \<^verbatim>\<open>rgba := image.NewRGBA(img.Bounds())\<close>
  \<^verbatim>\<open>draw.Draw(rgba, rgba.Bounds(), img, image.Point{}, draw.Src)\<close>
  \<^verbatim>\<open>return rgba\<close>
\<close>

definition convertTo8Bit :: "image \<Rightarrow> RGBA outcome" where
  "convertTo8Bit img =
     (case NewRGBA (Bounds img) of
        Panics \<Rightarrow> Panics
      | Returns rgba \<Rightarrow> Returns (Draw_Src rgba (Rect rgba) img (Pt 0 0)))"

text \<open>A rectangle whose pixel buffer \<open>NewRGBA\<close> can allocate.\<close>

definition fits :: "Rectangle \<Rightarrow> bool" where
  "fits r = (0 \<le> Dx r \<and> 0 \<le> Dy r \<and> 4 * Dx r < 2 ^ 64 \<and> 4 * Dx r * Dy r \<le> maxInt)"

section \<open>Strings and formatting\<close>

text \<open>The verb \<open>%d\<close> of package fmt: a decimal numeral, with a minus sign when negative.\<close>

definition digit :: "nat \<Rightarrow> char" where
  "digit n = char_of (48 + n)"

function dec_nat :: "nat \<Rightarrow> string" where
  "dec_nat n = (if n < 10 then [digit n] else dec_nat (n div 10) @ [digit (n mod 10)])"
  by pat_completeness auto
termination
  by (relation "measure id") auto

declare dec_nat.simps [simp del]

definition itoa :: "int \<Rightarrow> string" where
  "itoa i = (if i < 0 then CHR ''-'' # dec_nat (nat (- i)) else dec_nat (nat i))"

text \<open>\<^verbatim>\<open>fmt.Sprintf(ImageURLTemplate, index)\<close> with the template \<^verbatim>\<open>"XX/%d.XX"\<close>.\<close>

definition image_url :: "int \<Rightarrow> string" where
  "image_url index = ''XX/'' @ itoa index @ ''.XX''"

text \<open>
  The lines the program prints (each \<open>Printf\<close> ends with a newline, so standard
  output is a list of lines) and the errors \<open>fmt.Errorf\<close> builds; \<open>%v\<close> of an
  error is its message.
\<close>

definition downloading_line :: "int \<Rightarrow> int \<Rightarrow> string" where
  "downloading_line wid index =
     ''Worker '' @ itoa wid @ '': Downloading image '' @ itoa index @ ''...''"

definition error_downloading_line :: "int \<Rightarrow> string \<Rightarrow> string" where
  "error_downloading_line index e = ''Error downloading image '' @ itoa index @ '': '' @ e"

definition error_adding_line :: "int \<Rightarrow> string \<Rightarrow> string" where
  "error_adding_line i e = ''Error adding image '' @ itoa i @ '' to PDF: '' @ e"

definition error_saving_line :: "string \<Rightarrow> string" where
  "error_saving_line e = ''Error saving PDF: '' @ e"

definition success_line :: string where
  "success_line = ''PDF created successfully as final_output.pdf''"

definition download_failed :: "string \<Rightarrow> string" where
  "download_failed e = ''failed to download image: '' @ e"

definition decode_failed :: "string \<Rightarrow> string" where
  "decode_failed e = ''failed to decode image: '' @ e"

definition encode_failed :: "string \<Rightarrow> string" where
  "encode_failed e = ''failed to encode image: '' @ e"

section \<open>The configuration and the outside world\<close>

text \<open>
  The three configured constants, and the calls that leave the program: the HTTP
  request, the image decoder, the PNG encoder and the writing of the document. A Go
  \<open>error\<close> is represented by its message. The last field is the error the document
  builder holds after the calls made on it (the \<open>error-or-nil\<close> of the builder's
  page-append, the method \<open>Error\<close> of gofpdf): the calls \<open>AddPage\<close>,
  \<open>RegisterImageReader\<close> and \<open>Image\<close> return no error themselves, and the
  program never reads this one.
\<close>

type_synonym bytes = "uint8 list"
type_synonym err = string

text \<open>
  The document (\<open>*gofpdf.Fpdf\<close>) is an external collaborator: it is represented by
  the calls made on it since \<open>gofpdf.New\<close>, in order, and its page count by the
  number of calls of \<open>AddPage\<close>. The sizes \<open>float64(n) / 4\<close> are exact and
  written as rationals.
\<close>

datatype pdf_call =
    AddPage
  | RegisterImageReader string string bytes
  | Image_call string rat rat rat rat bool string int string

type_synonym Fpdf = "pdf_call list"

definition page_count :: "Fpdf \<Rightarrow> nat" where
  "page_count doc = length (filter (\<lambda>c. c = AddPage) doc)"

record env =
  FirstImageIndex :: int
  LastImageIndex :: int
  WorkerCount :: int
  http_Get :: "string \<Rightarrow> err + bytes"
  image_Decode :: "bytes \<Rightarrow> err + image"
  png_Encode :: "image \<Rightarrow> err + bytes"
  OutputFileAndClose :: "Fpdf \<Rightarrow> string \<Rightarrow> err option"
  pdf_Error :: "Fpdf \<Rightarrow> err option"

section \<open>ImageData and DownloadImage\<close>

record ImageData =
  Index :: int
  Image :: "image option"
  Error :: "err option"

text \<open>
  \<open>DownloadImage\<close> returns the pair \<open>(image.Image, error)\<close>; \<open>None\<close> is Go's
  \<open>nil\<close>.
\<close>

definition DownloadImage :: "env \<Rightarrow> string \<Rightarrow> (image option \<times> err option) outcome" where
  "DownloadImage env url =
     (case http_Get env url of
        Inl e \<Rightarrow> Returns (None, Some (download_failed e))
      | Inr body \<Rightarrow>
          (case image_Decode env body of
             Inl e \<Rightarrow> Returns (None, Some (decode_failed e))
           | Inr img \<Rightarrow>
               (case convertTo8Bit img of
                  Panics \<Rightarrow> Panics
                | Returns rgba \<Rightarrow> Returns (Some (RGBAImage rgba), None))))"

section \<open>AddImageToPDF\<close>

definition page_calls :: "int \<Rightarrow> image \<Rightarrow> bytes \<Rightarrow> pdf_call list" where
  "page_calls index img imgBuffer =
     (let width = of_int (Dx (Bounds img)) / 4;
          height = of_int (Dy (Bounds img)) / 4;
          imageName = ''image_'' @ itoa index @ ''.png''
      in [AddPage,
          RegisterImageReader imageName ''PNG'' imgBuffer,
          Image_call imageName 10 10 width height False [] 0 []])"

text \<open>
  \<open>png.Encode\<close> reads the bounds of its argument first, so a \<open>nil\<close> image panics.
  On an encoding error the function returns before any call on the document.
\<close>

definition AddImageToPDF ::
  "env \<Rightarrow> Fpdf \<Rightarrow> image option \<Rightarrow> int \<Rightarrow> (Fpdf \<times> err option) outcome" where
  "AddImageToPDF env doc img index =
     (case img of
        None \<Rightarrow> Panics
      | Some m \<Rightarrow>
          (case png_Encode env m of
             Inl e \<Rightarrow> Returns (doc, Some (encode_failed e))
           | Inr imgBuffer \<Rightarrow> Returns (doc @ page_calls index m imgBuffer, None)))"

section \<open>The collector\<close>

text \<open>
  The body of \<^verbatim>\<open>for data := range results\<close>: an error result is printed and dropped,
  a success is stored under its index.
\<close>

type_synonym image_map = "int \<rightharpoonup> image option"

definition collect_body :: "ImageData \<Rightarrow> image_map \<times> string list \<Rightarrow> image_map \<times> string list" where
  "collect_body data st =
     (case st of (m, out) \<Rightarrow>
        (case Error data of
           Some e \<Rightarrow> (m, out @ [error_downloading_line (Index data) e])
         | None \<Rightarrow> (m(Index data \<mapsto> Image data), out)))"

text \<open>The collector run on a sealed stream, given in arrival order.\<close>

definition collect :: "ImageData list \<Rightarrow> image_map \<times> string list" where
  "collect rs = fold collect_body rs (Map.empty, [])"

text \<open>
  The indices the second loop of \<open>main\<close> finds in the map, with their images: what is
  handed to \<open>AddImageToPDF\<close>, in this order.
\<close>

definition ordered :: "int \<Rightarrow> int \<Rightarrow> image_map \<Rightarrow> (int \<times> image option) list" where
  "ordered lo hi m =
     concat (map (\<lambda>i. case m i of None \<Rightarrow> [] | Some img \<Rightarrow> [(i, img)]) [lo..hi])"

section \<open>Channels, goroutines and the steps of the program\<close>

text \<open>
  A buffered channel: its queue, its capacity and whether it is closed. A send on a
  full channel and a receive on an empty open channel block; a send on a closed channel
  and \<open>make\<close> with a negative size panic (a negative constant size is already
  rejected by the compiler: either way the program does not get past \<open>make\<close>).
  With capacity 0 a send would need a waiting receiver; the program sends only when the
  capacity is positive.
\<close>

record 'a chan =
  buf :: "'a list"
  capacity :: int
  is_closed :: bool

definition make_chan :: "int \<Rightarrow> 'a chan" where
  "make_chan n = \<lparr>buf = [], capacity = n, is_closed = False\<rparr>"

text \<open>
  The main goroutine is at one of these points: before the channels are made, in the
  loop starting workers (with its counter), in the loop sending jobs, before
  \<open>close(jobs)\<close>, before starting the goroutine that waits and closes \<open>results\<close>,
  in the collecting loop, in the loop adding pages, before saving, before the last
  \<open>Println\<close>, and returned.
\<close>

datatype main_pc =
    MStart | MSpawn int | MSend int | MCloseJobs | MGoCloser
  | MCollect | MBuild int | MSave | MPrintln | MDone

text \<open>
  A worker is about to receive from \<open>jobs\<close>, has an index and is about to print, is
  about to download, holds a result to send, or has returned (after \<open>wg.Done\<close>).
\<close>

datatype wstate = WRecv | WGot int | WPrinted int | WFetched ImageData | WDone

datatype cstate = CIdle | CWait | CClose | CDone

datatype tid = TMain | TWorker nat | TCloser

text \<open>
  The last five fields are not program variables: they record, for the calls of
  \<open>DownloadImage\<close> that returned, the index the worker had taken and the URL that
  was passed to the call; the results sent on \<open>results\<close>; the results the collector
  received; and the arguments of the calls of \<open>AddImageToPDF\<close> that returned.
\<close>

record state =
  pc :: main_pc
  panicked :: bool
  jobs :: "int chan"
  results :: "ImageData chan"
  wg :: int
  workers :: "wstate list"
  closer :: cstate
  imageMap :: image_map
  pdf :: Fpdf
  stdout :: "string list"
  downloads :: "int list"
  fetched :: "string list"
  published :: "ImageData list"
  collected :: "ImageData list"
  handed :: "(int \<times> image option) list"

definition init :: state where
  "init = \<lparr>pc = MStart, panicked = False, jobs = make_chan 0, results = make_chan 0,
           wg = 0, workers = [], closer = CIdle, imageMap = Map.empty, pdf = [],
           stdout = [], downloads = [], fetched = [], published = [], collected = [],
           handed = []\<rparr>"

definition panic :: "state \<Rightarrow> state option" where
  "panic s = Some (s\<lparr>panicked := True\<rparr>)"

definition main_step :: "env \<Rightarrow> state \<Rightarrow> state option" where
  "main_step env s =
     (case pc s of
        MStart \<Rightarrow>
          (let n = LastImageIndex env - FirstImageIndex env + 1 in
           if n < 0 then panic s
           else Some (s\<lparr>jobs := make_chan n, results := make_chan n, pc := MSpawn 1\<rparr>))
      | MSpawn i \<Rightarrow>
          if i \<le> WorkerCount env
          then Some (s\<lparr>wg := wg s + 1, workers := workers s @ [WRecv], pc := MSpawn (i + 1)\<rparr>)
          else Some (s\<lparr>pc := MSend (FirstImageIndex env)\<rparr>)
      | MSend i \<Rightarrow>
          if i \<le> LastImageIndex env
          then (if is_closed (jobs s) then panic s
                else if int (length (buf (jobs s))) < capacity (jobs s)
                then Some (s\<lparr>jobs := (jobs s)\<lparr>buf := buf (jobs s) @ [i]\<rparr>, pc := MSend (i + 1)\<rparr>)
                else None)
          else Some (s\<lparr>pc := MCloseJobs\<rparr>)
      | MCloseJobs \<Rightarrow>
          if is_closed (jobs s) then panic s
          else Some (s\<lparr>jobs := (jobs s)\<lparr>is_closed := True\<rparr>, pc := MGoCloser\<rparr>)
      | MGoCloser \<Rightarrow> Some (s\<lparr>closer := CWait, pc := MCollect\<rparr>)
      | MCollect \<Rightarrow>
          (case buf (results s) of
             data # rest \<Rightarrow>
               (case collect_body data (imageMap s, stdout s) of (m, out) \<Rightarrow>
                  Some (s\<lparr>results := (results s)\<lparr>buf := rest\<rparr>, imageMap := m, stdout := out,
                          collected := collected s @ [data]\<rparr>))
           | [] \<Rightarrow>
               if is_closed (results s) then Some (s\<lparr>pc := MBuild (FirstImageIndex env)\<rparr>)
               else None)
      | MBuild i \<Rightarrow>
          if i \<le> LastImageIndex env
          then (case imageMap s i of
                  None \<Rightarrow> Some (s\<lparr>pc := MBuild (i + 1)\<rparr>)
                | Some img \<Rightarrow>
                    (case AddImageToPDF env (pdf s) img i of
                       Panics \<Rightarrow> panic s
                     | Returns (doc, e) \<Rightarrow>
                         Some (s\<lparr>pdf := doc,
                                 stdout := stdout s @
                                   (case e of None \<Rightarrow> []
                                    | Some msg \<Rightarrow> [error_adding_line i msg]),
                                 handed := handed s @ [(i, img)],
                                 pc := MBuild (i + 1)\<rparr>)))
          else Some (s\<lparr>pc := MSave\<rparr>)
      | MSave \<Rightarrow>
          Some (s\<lparr>stdout := stdout s @
                    (case OutputFileAndClose env (pdf s) ''final_output.pdf'' of None \<Rightarrow> []
                     | Some msg \<Rightarrow> [error_saving_line msg]),
                  pc := MPrintln\<rparr>)
      | MPrintln \<Rightarrow>
          Some (s\<lparr>stdout := stdout s @ [success_line], pc := MDone\<rparr>)
      | MDone \<Rightarrow> None)"

text \<open>Worker \<open>k\<close> of the list was started with \<open>id = k + 1\<close>.\<close>

definition worker_step :: "env \<Rightarrow> nat \<Rightarrow> state \<Rightarrow> state option" where
  "worker_step env k s =
     (if k \<ge> length (workers s) then None
      else case workers s ! k of
        WRecv \<Rightarrow>
          (case buf (jobs s) of
             index # rest \<Rightarrow>
               Some (s\<lparr>jobs := (jobs s)\<lparr>buf := rest\<rparr>, workers := (workers s)[k := WGot index]\<rparr>)
           | [] \<Rightarrow>
               if is_closed (jobs s)
               then (if wg s - 1 < 0 then panic s
                     else Some (s\<lparr>wg := wg s - 1, workers := (workers s)[k := WDone]\<rparr>))
               else None)
      | WGot index \<Rightarrow>
          Some (s\<lparr>stdout := stdout s @ [downloading_line (int k + 1) index],
                  workers := (workers s)[k := WPrinted index]\<rparr>)
      | WPrinted index \<Rightarrow>
          (let url = image_url index in
           case DownloadImage env url of
             Panics \<Rightarrow> panic s
           | Returns (img, e) \<Rightarrow>
               Some (s\<lparr>downloads := downloads s @ [index],
                       fetched := fetched s @ [url],
                       workers := (workers s)[k := WFetched \<lparr>Index = index, Image = img, Error = e\<rparr>]\<rparr>))
      | WFetched data \<Rightarrow>
          if is_closed (results s) then panic s
          else if int (length (buf (results s))) < capacity (results s)
          then Some (s\<lparr>results := (results s)\<lparr>buf := buf (results s) @ [data]\<rparr>,
                       published := published s @ [data],
                       workers := (workers s)[k := WRecv]\<rparr>)
          else None
      | WDone \<Rightarrow> None)"

text \<open>The goroutine \<^verbatim>\<open>go func() { wg.Wait(); close(results) }()\<close>.\<close>

definition closer_step :: "state \<Rightarrow> state option" where
  "closer_step s =
     (case closer s of
        CIdle \<Rightarrow> None
      | CWait \<Rightarrow> if wg s = 0 then Some (s\<lparr>closer := CClose\<rparr>) else None
      | CClose \<Rightarrow>
          if is_closed (results s) then panic s
          else Some (s\<lparr>results := (results s)\<lparr>is_closed := True\<rparr>, closer := CDone\<rparr>)
      | CDone \<Rightarrow> None)"

text \<open>
  One step of the goroutine \<open>t\<close>, \<open>None\<close> when it is blocked, not started or
  finished. Nothing runs after a panic or after \<open>main\<close> has returned.
\<close>

definition step :: "env \<Rightarrow> tid \<Rightarrow> state \<Rightarrow> state option" where
  "step env t s =
     (if panicked s \<or> pc s = MDone then None
      else case t of
        TMain \<Rightarrow> main_step env s
      | TWorker k \<Rightarrow> worker_step env k s
      | TCloser \<Rightarrow> closer_step s)"

text \<open>A schedule names the goroutine of each step; a run follows a schedule from \<open>init\<close>.\<close>

fun exec :: "env \<Rightarrow> tid list \<Rightarrow> state \<Rightarrow> state option" where
  "exec env [] s = Some s"
| "exec env (t # ts) s = (case step env t s of None \<Rightarrow> None | Some s' \<Rightarrow> exec env ts s')"

definition run :: "env \<Rightarrow> tid list \<Rightarrow> state option" where
  "run env sched = exec env sched init"

section \<open>Notions used in the proofs\<close>

text \<open>
  The index a worker has taken from \<open>jobs\<close> and not yet downloaded, the result it
  holds and has not yet sent, and the number of workers that have not returned.
\<close>

definition held :: "wstate \<Rightarrow> int list" where
  "held w = (case w of WGot i \<Rightarrow> [i] | WPrinted i \<Rightarrow> [i] | _ \<Rightarrow> [])"

definition holding :: "wstate \<Rightarrow> ImageData list" where
  "holding w = (case w of WFetched d \<Rightarrow> [d] | _ \<Rightarrow> [])"

definition live :: "wstate list \<Rightarrow> nat" where
  "live ws = length (filter (\<lambda>w. w \<noteq> WDone) ws)"

text \<open>The points of \<open>main\<close> in program order, and the indices it has sent so far.\<close>

fun phase :: "main_pc \<Rightarrow> nat" where
  "phase MStart = 0"
| "phase (MSpawn i) = 1"
| "phase (MSend i) = 2"
| "phase MCloseJobs = 3"
| "phase MGoCloser = 4"
| "phase MCollect = 5"
| "phase (MBuild i) = 6"
| "phase MSave = 7"
| "phase MPrintln = 8"
| "phase MDone = 9"

fun sent :: "env \<Rightarrow> main_pc \<Rightarrow> int list" where
  "sent env MStart = []"
| "sent env (MSpawn i) = []"
| "sent env (MSend i) = [FirstImageIndex env..i - 1]"
| "sent env p = [FirstImageIndex env..LastImageIndex env]"

definition job_count :: "env \<Rightarrow> int" where
  "job_count env = LastImageIndex env - FirstImageIndex env + 1"

text \<open>
  The invariants. \<open>inv_wg\<close>: the counter of the wait group is the number of workers
  that have not returned. \<open>inv_pc\<close>: the loop counters are within their bounds, all
  workers are started once the first loop is left, the channels have the configured
  size, \<open>jobs\<close> is closed exactly after \<open>close(jobs)\<close>, and the closing
  goroutine exists exactly from the collecting loop on. \<open>inv_done\<close>: a worker
  returns only when \<open>jobs\<close> is closed and empty, \<open>wg.Wait\<close> returns only when all
  workers have returned, and \<open>results\<close> is closed exactly by the closing goroutine.
  \<open>inv_jobs\<close> and \<open>inv_res\<close>: every index sent is in \<open>jobs\<close>, with a worker,
  or downloaded; every download is held by a worker or was sent on \<open>results\<close>; what
  was sent is what was collected followed by what is still in the channel.
  \<open>inv_from\<close>: every result is what \<open>DownloadImage\<close> returned for its index.
  \<open>inv_map\<close>: the map is the collector applied to the results received.
  \<open>inv_build\<close>: what was handed to \<open>AddImageToPDF\<close> is the ordered reading of the
  map up to the loop counter, and the document is built from it. \<open>inv_out\<close>: every
  error met is on standard output, and the last lines are those of the end of \<open>main\<close>.
\<close>

definition inv_wg :: "state \<Rightarrow> bool" where
  "inv_wg s = (wg s = int (live (workers s)))"

fun pc_ok :: "env \<Rightarrow> main_pc \<Rightarrow> nat \<Rightarrow> bool" where
  "pc_ok env MStart nw = (nw = 0)"
| "pc_ok env (MSpawn i) nw = (1 \<le> i \<and> i \<le> max 0 (WorkerCount env) + 1 \<and> nw = nat (i - 1))"
| "pc_ok env (MSend i) nw =
     (nw = nat (WorkerCount env) \<and> FirstImageIndex env \<le> i \<and> i \<le> LastImageIndex env + 1)"
| "pc_ok env (MBuild i) nw =
     (nw = nat (WorkerCount env) \<and> FirstImageIndex env \<le> i \<and> i \<le> LastImageIndex env + 1)"
| "pc_ok env p nw = (nw = nat (WorkerCount env))"

definition inv_pc :: "env \<Rightarrow> state \<Rightarrow> bool" where
  "inv_pc env s =
     (pc_ok env (pc s) (length (workers s)) \<and>
      (phase (pc s) \<ge> 1 \<longrightarrow> capacity (jobs s) = job_count env \<and>
          capacity (results s) = job_count env \<and> 0 \<le> job_count env) \<and>
      (is_closed (jobs s) \<longleftrightarrow> phase (pc s) \<ge> 4) \<and>
      (closer s = CIdle \<longleftrightarrow> phase (pc s) \<le> 4))"

definition inv_done :: "state \<Rightarrow> bool" where
  "inv_done s =
     ((WDone \<in> set (workers s) \<longrightarrow> is_closed (jobs s) \<and> buf (jobs s) = []) \<and>
      (closer s = CClose \<or> closer s = CDone \<longrightarrow> (\<forall>w\<in>set (workers s). w = WDone)) \<and>
      (is_closed (results s) \<longleftrightarrow> closer s = CDone) \<and>
      (phase (pc s) \<ge> 6 \<longrightarrow> is_closed (results s) \<and> buf (results s) = []))"

definition inv_jobs :: "env \<Rightarrow> state \<Rightarrow> bool" where
  "inv_jobs env s =
     (mset (sent env (pc s)) =
        mset (buf (jobs s)) + mset (concat (map held (workers s))) + mset (downloads s))"

definition inv_res :: "state \<Rightarrow> bool" where
  "inv_res s =
     (mset (downloads s) =
        mset (map Index (concat (map holding (workers s)))) + mset (map Index (published s)) \<and>
      published s = collected s @ buf (results s))"

definition from_download :: "env \<Rightarrow> ImageData \<Rightarrow> bool" where
  "from_download env d = (DownloadImage env (image_url (Index d)) = Returns (Image d, Error d))"

definition inv_from :: "env \<Rightarrow> state \<Rightarrow> bool" where
  "inv_from env s =
     ((\<forall>d\<in>set (concat (map holding (workers s))). from_download env d) \<and>
      (\<forall>d\<in>set (published s). from_download env d))"

definition inv_map :: "state \<Rightarrow> bool" where
  "inv_map s = (imageMap s = fst (collect (collected s)))"

text \<open>The calls on the document that the sequence handed to AddImageToPDF produces.\<close>

definition build_doc :: "env \<Rightarrow> (int \<times> image option) list \<Rightarrow> Fpdf" where
  "build_doc env hs =
     concat (map (\<lambda>(i, img). case img of None \<Rightarrow> []
                  | Some m \<Rightarrow> (case png_Encode env m of Inl e \<Rightarrow> [] | Inr b \<Rightarrow> page_calls i m b)) hs)"

definition inv_build :: "env \<Rightarrow> state \<Rightarrow> bool" where
  "inv_build env s =
     ((phase (pc s) \<le> 5 \<longrightarrow> handed s = []) \<and>
      (\<forall>i. pc s = MBuild i \<longrightarrow> handed s = ordered (FirstImageIndex env) (i - 1) (imageMap s)) \<and>
      (phase (pc s) \<ge> 7 \<longrightarrow>
         handed s = ordered (FirstImageIndex env) (LastImageIndex env) (imageMap s)) \<and>
      pdf s = build_doc env (handed s))"

definition save_lines :: "env \<Rightarrow> Fpdf \<Rightarrow> string list" where
  "save_lines env doc =
     (case OutputFileAndClose env doc ''final_output.pdf'' of None \<Rightarrow> []
      | Some msg \<Rightarrow> [error_saving_line msg])"

definition inv_out :: "env \<Rightarrow> state \<Rightarrow> bool" where
  "inv_out env s =
     ((\<forall>d e. d \<in> set (collected s) \<longrightarrow> Error d = Some e \<longrightarrow>
         error_downloading_line (Index d) e \<in> set (stdout s)) \<and>
      (\<forall>i m e. (i, Some m) \<in> set (handed s) \<longrightarrow> png_Encode env m = Inl e \<longrightarrow>
         error_adding_line i (encode_failed e) \<in> set (stdout s)) \<and>
      (pc s = MPrintln \<longrightarrow> suffix (save_lines env (pdf s)) (stdout s)) \<and>
      (pc s = MDone \<longrightarrow> suffix (save_lines env (pdf s) @ [success_line]) (stdout s)))"

definition Inv :: "env \<Rightarrow> state \<Rightarrow> bool" where
  "Inv env s = (inv_wg s \<and> inv_pc env s \<and> inv_done s \<and> inv_jobs env s \<and> inv_res s \<and>
     inv_from env s \<and> inv_map s \<and> inv_build env s \<and> inv_out env s)"

text \<open>
  The decoder returns only images whose bounds \<open>NewRGBA\<close> accepts (the decoders of
  the standard library return well-formed rectangles of images they could allocate).
\<close>

definition decodes_fit :: "env \<Rightarrow> bool" where
  "decodes_fit env = (\<forall>body img. image_Decode env body = Inr img \<longrightarrow> fits (Bounds img))"

text \<open>
  The number of steps a state still has to take: those of \<open>main\<close>, five for each
  index waiting in \<open>jobs\<close> (four steps of a worker and one of the collector), those
  of each worker and of the closing goroutine, and one for each result waiting in
  \<open>results\<close>. Every step lowers it by one.
\<close>

fun main_mu :: "env \<Rightarrow> main_pc \<Rightarrow> int" where
  "main_mu env MDone = 0"
| "main_mu env MPrintln = 1"
| "main_mu env MSave = 2"
| "main_mu env (MBuild i) = (LastImageIndex env + 1 - i) + 3"
| "main_mu env MCollect = job_count env + 4"
| "main_mu env MGoCloser = job_count env + 7"
| "main_mu env MCloseJobs = job_count env + 8"
| "main_mu env (MSend i) = 6 * (LastImageIndex env + 1 - i) + job_count env + 9"
| "main_mu env (MSpawn i) = 2 * (max 0 (WorkerCount env) + 1 - i) + 7 * job_count env + 10"
| "main_mu env MStart = 2 * max 0 (WorkerCount env) + 7 * job_count env + 11"

fun worker_mu :: "wstate \<Rightarrow> int" where
  "worker_mu WRecv = 1"
| "worker_mu (WGot i) = 5"
| "worker_mu (WPrinted i) = 4"
| "worker_mu (WFetched d) = 3"
| "worker_mu WDone = 0"

fun closer_mu :: "cstate \<Rightarrow> int" where
  "closer_mu CIdle = 0"
| "closer_mu CWait = 2"
| "closer_mu CClose = 1"
| "closer_mu CDone = 0"

definition mu :: "env \<Rightarrow> state \<Rightarrow> int" where
  "mu env s = main_mu env (pc s) + 5 * int (length (buf (jobs s))) +
     sum_list (map worker_mu (workers s)) + closer_mu (closer s) +
     int (length (buf (results s)))"

text \<open>
  The indices of the range whose download returns no error, in ascending order, each
  with the image returned.
\<close>

definition successes :: "env \<Rightarrow> (int \<times> image option) list" where
  "successes env =
     concat (map (\<lambda>i. case DownloadImage env (image_url i) of
                         Returns (img, None) \<Rightarrow> [(i, img)]
                       | _ \<Rightarrow> [])
       [FirstImageIndex env..LastImageIndex env])"


section \<open>Concrete inputs\<close>

definition red :: color_RGBA where
  "red = \<lparr>R = 255, G = 0, B = 0, A = 255\<rparr>"

definition blue :: color_RGBA where
  "blue = \<lparr>R = 0, G = 0, B = 255, A = 255\<rparr>"

text \<open>
  An \<open>*image.RGBA\<close> of two pixels, red then blue, with bounds \<open>(1,0)-(3,1)\<close>, as
  \<open>image.NewRGBA(image.Rect(1, 0, 3, 1))\<close> with both pixels set.
\<close>

definition shifted_rgba :: RGBA where
  "shifted_rgba =
     \<lparr>Pix = (\<lambda>p. if p = (1, 0) then red else if p = (2, 0) then blue else color_zero),
      Rect = \<lparr>Min_r = Pt 1 0, Max_r = Pt 3 1\<rparr>\<rparr>"

text \<open>
  An opaque white image of 2 by 2 pixels with bounds \<open>(2,2)-(4,4)\<close> that is not an
  \<open>*image.RGBA\<close>: what \<open>image.Decode\<close> returns for a GIF whose first frame lies at
  offset \<open>(2, 2)\<close> of its logical screen.
\<close>

definition white16 :: rgba32 where
  "white16 = (0xffff, 0xffff, 0xffff, 0xffff)"

definition offset_frame :: GenericImage where
  "offset_frame = \<lparr>Bounds_g = \<lparr>Min_r = Pt 2 2, Max_r = Pt 4 4\<rparr>, At_g = (\<lambda>_. white16)\<rparr>"

text \<open>
  A stub of the outside world for the range 1 to 3 and two workers: image 1 downloads
  and decodes to a 2 by 2 image with 16-bit channels, the request for image 2 fails,
  image 3 decodes to an image of size 0 by 0 (which \<open>png.Encode\<close> rejects), and the
  document cannot be written.
\<close>

definition gray16 :: rgba32 where
  "gray16 = (0x8000, 0x8000, 0x8000, 0xffff)"

definition img1 :: GenericImage where
  "img1 = \<lparr>Bounds_g = \<lparr>Min_r = Pt 0 0, Max_r = Pt 2 2\<rparr>, At_g = (\<lambda>_. gray16)\<rparr>"

definition img3 :: GenericImage where
  "img3 = \<lparr>Bounds_g = \<lparr>Min_r = Pt 0 0, Max_r = Pt 0 0\<rparr>, At_g = (\<lambda>_. gray16)\<rparr>"

definition env_w :: env where
  "env_w = \<lparr>FirstImageIndex = 1, LastImageIndex = 3, WorkerCount = 2,
     http_Get = (\<lambda>url. if url = ''XX/1.XX'' then Inr [1]
                        else if url = ''XX/3.XX'' then Inr [3]
                        else Inl ''connection refused''),
     image_Decode = (\<lambda>body. if body = [1] then Inr (OtherImage img1)
                        else if body = [3] then Inr (OtherImage img3)
                        else Inl ''image: unknown format''),
     png_Encode = (\<lambda>m. if Dx (Bounds m) \<le> 0 \<or> Dy (Bounds m) \<le> 0
                        then Inl ''png: invalid format: invalid image size''
                        else Inr [137, 80, 78, 71]),
     OutputFileAndClose = (\<lambda>doc path. Some ''permission denied''),
     pdf_Error = (\<lambda>doc. None)\<rparr>"

text \<open>Three results in one arrival order; the second is an error result.\<close>

definition rs_w :: "ImageData list" where
  "rs_w = [\<lparr>Index = 3, Image = Some (OtherImage img3), Error = None\<rparr>,
           \<lparr>Index = 2, Image = None, Error = Some (download_failed ''connection refused'')\<rparr>,
           \<lparr>Index = 1, Image = Some (OtherImage img1), Error = None\<rparr>]"

text \<open>
  A schedule of the 36 steps of one run for \<open>env_w\<close>: the result for image 2 arrives
  first, then those for images 3 and 1.
\<close>

definition sched_w :: "tid list" where
  "sched_w =
     [TMain, TMain, TMain, TMain, TMain, TMain, TMain, TMain, TMain, TMain,
      TWorker 0, TWorker 1, TWorker 0, TWorker 1, TWorker 1, TWorker 1, TWorker 1,
      TWorker 0, TWorker 1, TWorker 1, TWorker 1, TMain, TWorker 0, TWorker 0, TWorker 1,
      TCloser, TCloser, TMain, TMain, TMain, TMain, TMain, TMain, TMain, TMain, TMain]"

text \<open>What \<open>convertTo8Bit\<close> returns for the two decoded images.\<close>

definition rgba1 :: RGBA where
  "rgba1 = Draw_Src \<lparr>Pix = (\<lambda>_. color_zero), Rect = Bounds_g img1\<rparr> (Bounds_g img1)
     (OtherImage img1) (Pt 0 0)"

definition rgba3 :: RGBA where
  "rgba3 = Draw_Src \<lparr>Pix = (\<lambda>_. color_zero), Rect = Bounds_g img3\<rparr> (Bounds_g img3)
     (OtherImage img3) (Pt 0 0)"

text \<open>The stub with the range 3 to 1: \<open>first > last + 1\<close>.\<close>

definition env_neg :: env where
  "env_neg = env_w\<lparr>FirstImageIndex := 3, LastImageIndex := 1\<rparr>"

text \<open>
  The stub with the empty range 4 to 3 (\<open>first = last + 1\<close>), and a schedule of the
  15 steps of one of its runs.
\<close>

definition env_zero :: env where
  "env_zero = env_w\<lparr>FirstImageIndex := 4, LastImageIndex := 3\<rparr>"

definition sched_zero :: "tid list" where
  "sched_zero =
     [TMain, TMain, TMain, TMain, TMain, TMain, TWorker 1, TMain, TWorker 0,
      TCloser, TCloser, TMain, TMain, TMain, TMain]"



text \<open>
  A stub whose images 1 and 3 both decode to \<open>img1\<close> and are encoded, and whose
  document rejects the image registered for page 1: from that call on the document
  holds an error, which \<open>OutputFileAndClose\<close> returns.
\<close>

definition env_b :: env where
  "env_b = env_w\<lparr>
     image_Decode := (\<lambda>body. if body = [1] \<or> body = [3] then Inr (OtherImage img1)
                        else Inl ''image: unknown format''),
     OutputFileAndClose := (\<lambda>doc path.
        if RegisterImageReader ''image_1.png'' ''PNG'' [137, 80, 78, 71] \<in> set doc
        then Some ''page rejected'' else None),
     pdf_Error := (\<lambda>doc.
        if RegisterImageReader ''image_1.png'' ''PNG'' [137, 80, 78, 71] \<in> set doc
        then Some ''page rejected'' else None)\<rparr>"

section \<open>Properties of convertTo8Bit\<close>

lemma widen_high_byte: "ucast (drop_bit 8 (widen c)) = c"
  unfolding widen_def
  by (rule bit_word_eqI) (auto simp add: bit_simps dest: bit_imp_le_length)

lemma to8_RGBA_of: "to8 (RGBA_of c) = c"
  by (simp add: to8_def RGBA_of_def widen_high_byte)

lemma NewRGBA_fits: "fits r \<Longrightarrow> NewRGBA r = Returns \<lparr>Pix = (\<lambda>_. color_zero), Rect = r\<rparr>"
  by (auto simp add: fits_def NewRGBA_def)

lemma NewRGBA_Returns: "NewRGBA r = Returns p \<Longrightarrow> fits r \<and> Rect p = r"
  by (auto simp add: fits_def NewRGBA_def split: if_splits)

lemma Rect_Draw_Src: "Rect (Draw_Src dst r src sp) = Rect dst"
  by (simp add: Draw_Src_def split: prod.splits)

lemma convertTo8Bit_Rect: "convertTo8Bit img = Returns q \<Longrightarrow> Rect q = Bounds img"
  by (auto simp add: convertTo8Bit_def Rect_Draw_Src split: outcome.splits
      dest: NewRGBA_Returns)

lemma convertTo8Bit_fits: "fits (Bounds img) \<Longrightarrow> \<exists>q. convertTo8Bit img = Returns q"
  by (simp add: convertTo8Bit_def NewRGBA_fits)

lemma Empty_ZR: "Empty ZR"
  by (simp add: Empty_def ZR_def Pt_def)

lemma In_Empty: "Empty r \<Longrightarrow> \<not> In p r"
  by (auto simp add: Empty_def In_def)

lemma Intersect_self: "Intersect r r = (if Empty r then ZR else r)"
proof -
  obtain a b c d where r: "r = \<lparr>Min_r = \<lparr>X = a, Y = b\<rparr>, Max_r = \<lparr>X = c, Y = d\<rparr>\<rparr>"
    by (cases r, cases "Min_r r", cases "Max_r r") auto
  show ?thesis by (simp add: r Intersect_def Let_def Empty_def Pt_def)
qed

lemma Add_r_origin: "Add_r r (Sub_p (Pt 0 0) (Pt 0 0)) = r"
proof -
  obtain a b c d where r: "r = \<lparr>Min_r = \<lparr>X = a, Y = b\<rparr>, Max_r = \<lparr>X = c, Y = d\<rparr>\<rparr>"
    by (cases r, cases "Min_r r", cases "Max_r r") auto
  show ?thesis by (simp add: r Add_r_def Sub_p_def Pt_def)
qed

lemma clip_origin:
  assumes "Min_r r = Pt 0 0"
  shows "clip r r r (Pt 0 0) = (if Empty r then (ZR, Pt 0 0) else (r, Pt 0 0))"
proof -
  have z: "Intersect ZR r = ZR"
    by (auto simp add: Intersect_def Let_def Empty_def ZR_def Pt_def)
  show ?thesis using assms
    by (simp add: clip_def Let_def Intersect_self Add_r_origin z) (simp add: ZR_def Pt_def)
qed

text \<open>
  When the bounds start at the origin and the buffer can be allocated, the result has
  the bounds of the source, and each of its pixels is the source's pixel, cut to 8 bits
  per channel.
\<close>

lemma convertTo8Bit_origin:
  assumes f: "fits (Bounds img)" and o: "Min_r (Bounds img) = Pt 0 0"
  shows "\<exists>q. convertTo8Bit img = Returns q \<and> Rect q = Bounds img \<and>
     (\<forall>x y. RGBAAt q x y = (if In (Pt x y) (Bounds img) then src_pixel img x y else color_zero))"
  using f clip_origin[OF o] Empty_ZR
  by (auto simp add: convertTo8Bit_def NewRGBA_fits Draw_Src_def RGBAAt_def In_Empty o Pt_def)

lemma convertTo8Bit_origin_RGBA:
  assumes f: "fits (Rect p)" and o: "Min_r (Rect p) = Pt 0 0"
  shows "\<exists>q. convertTo8Bit (RGBAImage p) = Returns q \<and> Rect q = Rect p \<and>
     (\<forall>x y. RGBAAt q x y = RGBAAt p x y)"
proof -
  obtain q where q: "convertTo8Bit (RGBAImage p) = Returns q" "Rect q = Rect p"
    and px: "\<And>x y. RGBAAt q x y =
      (if In (Pt x y) (Rect p) then src_pixel (RGBAImage p) x y else color_zero)"
    using convertTo8Bit_origin[of "RGBAImage p"] f o by auto
  have "RGBAAt q x y = RGBAAt p x y" for x y
    by (simp add: px) (simp add: RGBAAt_def)
  with q show ?thesis by blast
qed

text \<open>
  C6 (normalization is idempotent: converting an already normalized 8-bit RGBA bitmap
  yields the same colour at every coordinate of its bounds). The code aligns the
  destination rectangle with the source point \<open>image.Point{}\<close> instead of the
  corner of the source's bounds, so the property fails for an RGBA bitmap whose bounds
  do not start at \<open>(0, 0)\<close>: for the two-pixel bitmap \<open>shifted_rgba\<close> (red at
  \<open>(1, 0)\<close>, blue at \<open>(2, 0)\<close>) the result has the same bounds, but is transparent
  at \<open>(1, 0)\<close> and red at \<open>(2, 0)\<close>.
\<close>

theorem convertTo8Bit_shifts_offset_RGBA:
  "\<exists>q. convertTo8Bit (RGBAImage shifted_rgba) = Returns q \<and> Rect q = Rect shifted_rgba \<and>
     RGBAAt shifted_rgba 1 0 = red \<and> RGBAAt q 1 0 = color_zero \<and>
     RGBAAt shifted_rgba 2 0 = blue \<and> RGBAAt q 2 0 = red"
  by (simp add: convertTo8Bit_def NewRGBA_def shifted_rgba_def Dx_def Dy_def Pt_def maxInt_def
      Draw_Src_def clip_def Intersect_def Add_r_def Sub_p_def Let_def Empty_def ZR_def
      RGBAAt_def In_def)

text \<open>
  C7 (for every decoded image the normalization returns an 8-bit RGBA raster that is a
  full-frame copy of the source into a fresh buffer sized to the source's bounds). The
  buffer has the source's bounds, but the copy is not of the full frame when the bounds
  do not start at \<open>(0, 0)\<close>: for the opaque white 2 by 2 image \<open>offset_frame\<close> with
  bounds \<open>(2,2)-(4,4)\<close> the clipped rectangle is empty, nothing is drawn, and every
  pixel of the result is transparent black.
\<close>

theorem convertTo8Bit_drops_offset_frame:
  "\<exists>q. convertTo8Bit (OtherImage offset_frame) = Returns q \<and>
     Rect q = Bounds (OtherImage offset_frame) \<and> In (Pt 2 2) (Rect q) \<and>
     to8 (At (OtherImage offset_frame) 2 2) = \<lparr>R = 255, G = 255, B = 255, A = 255\<rparr> \<and>
     (\<forall>x y. RGBAAt q x y = color_zero)"
  by (simp add: convertTo8Bit_def NewRGBA_def offset_frame_def Dx_def Dy_def Pt_def maxInt_def
      white16_def to8_def Draw_Src_def clip_def Intersect_def Add_r_def Sub_p_def Let_def
      Empty_def ZR_def RGBAAt_def In_def)

section \<open>Properties of AddImageToPDF\<close>

text \<open>
  C9: adding a page is atomic on an encoding failure. When \<open>png.Encode\<close> fails for
  the bitmap, \<open>AddImageToPDF\<close> returns the error and the document is unchanged (no
  call was made on it, so its page count and contents are as before); and whenever the
  function returns a changed document, the encoding of that bitmap succeeded, no error
  is returned, and exactly one page was added.
\<close>

theorem AddImageToPDF_atomic:
  "(png_Encode env m = Inl e \<longrightarrow>
      AddImageToPDF env doc (Some m) index = Returns (doc, Some (encode_failed e))) \<and>
   (AddImageToPDF env doc img index = Returns (doc', r) \<and> doc' \<noteq> doc \<longrightarrow>
      (\<exists>m' b. img = Some m' \<and> png_Encode env m' = Inr b \<and> r = None \<and>
         doc' = doc @ page_calls index m' b \<and> page_count doc' = page_count doc + 1))"
  by (auto simp add: AddImageToPDF_def page_calls_def page_count_def Let_def
      split: option.splits sum.splits)

theorem AddImageToPDF_atomic_witness:
  "png_Encode env_w (OtherImage img3) = Inl ''png: invalid format: invalid image size'' \<and>
   AddImageToPDF env_w [AddPage] (Some (OtherImage img3)) 3 =
     Returns ([AddPage], Some (encode_failed ''png: invalid format: invalid image size'')) \<and>
   AddImageToPDF env_w [] (Some (OtherImage img1)) 1 =
     Returns (page_calls 1 (OtherImage img1) [137, 80, 78, 71], None) \<and>
   page_count (page_calls 1 (OtherImage img1) [137, 80, 78, 71]) = page_count [] + 1"
proof -
  have e: "png_Encode env_w (OtherImage img3) = Inl ''png: invalid format: invalid image size''"
    by (simp add: env_w_def img3_def Dx_def Dy_def Pt_def)
  have a: "AddImageToPDF env_w [] (Some (OtherImage img1)) 1 =
     Returns (page_calls 1 (OtherImage img1) [137, 80, 78, 71], None)"
    by (simp add: AddImageToPDF_def env_w_def img1_def Dx_def Dy_def Pt_def)
  have n: "page_calls 1 (OtherImage img1) [137, 80, 78, 71] \<noteq> []"
    by (simp add: page_calls_def Let_def)
  from AddImageToPDF_atomic[where env = env_w and m = "OtherImage img3" and doc = "[AddPage]"
      and index = 3] e
  have 1: "AddImageToPDF env_w [AddPage] (Some (OtherImage img3)) 3 =
     Returns ([AddPage], Some (encode_failed ''png: invalid format: invalid image size''))"
    by simp
  from AddImageToPDF_atomic[where env = env_w and doc = "[]" and img = "Some (OtherImage img1)"
      and index = 1 and doc' = "page_calls 1 (OtherImage img1) [137, 80, 78, 71]" and r = None] a n
  have 2: "page_count (page_calls 1 (OtherImage img1) [137, 80, 78, 71]) = page_count [] + 1"
    by auto
  from e a 1 2 show ?thesis by simp
qed

section \<open>Properties of the collector\<close>

lemma fold_collect_body_map:
  "distinct (map Index rs) \<Longrightarrow>
   fst (fold collect_body rs (m, out)) i = Some v \<longleftrightarrow>
     (\<exists>d\<in>set rs. Index d = i \<and> Error d = None \<and> Image d = v) \<or>
     ((\<forall>d\<in>set rs. Index d = i \<longrightarrow> Error d \<noteq> None) \<and> m i = Some v)"
proof (induction rs arbitrary: m out)
  case Nil
  then show ?case by simp
next
  case (Cons d ds)
  from Cons.prems have dd: "distinct (map Index ds)" and nd: "\<forall>x\<in>set ds. Index x \<noteq> Index d"
    by (auto simp add: image_iff)
  show ?case
  proof (cases "Error d")
    case None
    define m' where "m' = m(Index d \<mapsto> Image d)"
    have f: "fold collect_body (d # ds) (m, out) = fold collect_body ds (m', out)"
      by (simp add: collect_body_def None m'_def)
    have m'i: "m' i = (if i = Index d then Some (Image d) else m i)"
      by (simp add: m'_def)
    show ?thesis
      unfolding f Cons.IH[OF dd, of m' out] m'i
      using None nd by auto
  next
    case (Some e)
    have f: "fold collect_body (d # ds) (m, out) =
          fold collect_body ds (m, out @ [error_downloading_line (Index d) e])"
      by (simp add: collect_body_def Some)
    show ?thesis
      unfolding f Cons.IH[OF dd, of m]
      using Some by auto
  qed
qed

lemma collect_map_iff:
  "distinct (map Index rs) \<Longrightarrow>
   fst (collect rs) i = Some v \<longleftrightarrow> (\<exists>d\<in>set rs. Index d = i \<and> Error d = None \<and> Image d = v)"
  by (simp add: collect_def fold_collect_body_map)

text \<open>
  C4: the collector's output does not depend on the arrival order. For results in which
  each index appears at most once, any two arrival orders of the same results give the
  same ordered sequence.
\<close>

theorem collector_order_independent:
  assumes d: "distinct (map Index rs)" and p: "mset rs' = mset rs"
  shows "ordered lo hi (fst (collect rs')) = ordered lo hi (fst (collect rs))"
proof -
  have s: "set rs' = set rs" using p by (rule mset_eq_setD)
  have "mset (map Index rs') = mset (map Index rs)" using p by simp
  then have d': "distinct (map Index rs')" using d by (metis mset_eq_imp_distinct_iff)
  have "fst (collect rs') i = fst (collect rs) i" for i
  proof (cases "fst (collect rs) i")
    case None
    then have "\<And>v. fst (collect rs') i \<noteq> Some v"
      using collect_map_iff[OF d, of i] collect_map_iff[OF d', of i] s by auto
    with None show ?thesis by (cases "fst (collect rs') i") auto
  next
    case (Some v)
    then show ?thesis
      using collect_map_iff[OF d, of i v] collect_map_iff[OF d', of i v] s by auto
  qed
  then have "fst (collect rs') = fst (collect rs)" by (rule ext)
  then show ?thesis by simp
qed

theorem collector_order_independent_witness:
  "distinct (map Index rs_w) \<and> mset (rev rs_w) = mset rs_w \<and>
   ordered 1 3 (fst (collect (rev rs_w))) = ordered 1 3 (fst (collect rs_w)) \<and>
   ordered 1 3 (fst (collect rs_w)) = [(1, Some (OtherImage img1)), (3, Some (OtherImage img3))]"
proof -
  have d: "distinct (map Index rs_w)" by (simp add: rs_w_def)
  have p: "mset (rev rs_w) = mset rs_w" by simp
  have u: "[1..3] = [1, 2, 3::int]" by (simp add: upto.simps)
  have v: "ordered 1 3 (fst (collect rs_w)) =
      [(1, Some (OtherImage img1)), (3, Some (OtherImage img3))]"
    by (simp add: ordered_def u collect_def collect_body_def rs_w_def)
  from d p v collector_order_independent[OF d p, of 1 3] show ?thesis by simp
qed

section \<open>Invariants of the program\<close>

lemma mset_concat_map_update:
  "k < length ws \<Longrightarrow>
   mset (concat (map f (ws[k := w]))) + mset (f (ws ! k)) = mset (concat (map f ws)) + mset (f w)"
proof (induction ws arbitrary: k)
  case Nil
  then show ?case by simp
next
  case (Cons a ws)
  show ?case
  proof (cases k)
    case 0
    then show ?thesis by simp
  next
    case (Suc j)
    with Cons.prems have "j < length ws" by simp
    from Cons.IH[OF this] show ?thesis by (simp add: Suc) 
  qed
qed

lemma live_update:
  "k < length ws \<Longrightarrow>
   int (live (ws[k := w])) =
     int (live ws) - (if ws ! k \<noteq> WDone then 1 else 0) + (if w \<noteq> WDone then 1 else 0)"
proof (induction ws arbitrary: k)
  case Nil
  then show ?case by simp
next
  case (Cons a ws)
  show ?case
  proof (cases k)
    case 0
    then show ?thesis by (simp add: live_def)
  next
    case (Suc j)
    with Cons.prems have "j < length ws" by simp
    from Cons.IH[OF this] show ?thesis by (auto simp add: Suc live_def split: if_splits)
  qed
qed

lemma live_append: "live (ws @ [w]) = live ws + (if w \<noteq> WDone then 1 else 0)"
  by (simp add: live_def)

lemma inv_wg_main: "inv_wg s \<Longrightarrow> main_step env s = Some s' \<Longrightarrow> inv_wg s'"
  by (cases "pc s")
     (auto simp add: inv_wg_def main_step_def panic_def Let_def live_append
       split: if_splits list.splits prod.splits option.splits outcome.splits)

lemma inv_wg_worker: "inv_wg s \<Longrightarrow> worker_step env k s = Some s' \<Longrightarrow> inv_wg s'"
  by (cases "workers s ! k")
     (auto simp add: inv_wg_def worker_step_def Let_def panic_def live_update
       split: if_splits list.splits prod.splits outcome.splits)

lemma inv_wg_closer: "inv_wg s \<Longrightarrow> closer_step s = Some s' \<Longrightarrow> inv_wg s'"
  by (cases "closer s")
     (auto simp add: inv_wg_def closer_step_def panic_def split: if_splits)

lemma inv_pc_main: "inv_pc env s \<Longrightarrow> main_step env s = Some s' \<Longrightarrow> inv_pc env s'"
proof (cases "pc s")
  case MStart
  assume "inv_pc env s" "main_step env s = Some s'"
  with MStart show ?thesis
    by (auto simp add: inv_pc_def main_step_def panic_def Let_def make_chan_def job_count_def
        split: if_splits)
next
  case (MSpawn i)
  assume "inv_pc env s" "main_step env s = Some s'"
  with MSpawn show ?thesis
    by (auto simp add: inv_pc_def main_step_def job_count_def split: if_splits)
next
  case (MSend i)
  assume "inv_pc env s" "main_step env s = Some s'"
  with MSend show ?thesis
    by (auto simp add: inv_pc_def main_step_def panic_def split: if_splits)
next
  case MCloseJobs
  assume "inv_pc env s" "main_step env s = Some s'"
  with MCloseJobs show ?thesis
    by (auto simp add: inv_pc_def main_step_def panic_def split: if_splits)
next
  case MGoCloser
  assume "inv_pc env s" "main_step env s = Some s'"
  with MGoCloser show ?thesis
    by (auto simp add: inv_pc_def main_step_def panic_def split: if_splits)
next
  case MCollect
  assume "inv_pc env s" "main_step env s = Some s'"
  with MCollect show ?thesis
    by (auto simp add: inv_pc_def main_step_def job_count_def split: if_splits list.splits prod.splits)
next
  case (MBuild i)
  assume "inv_pc env s" "main_step env s = Some s'"
  with MBuild show ?thesis
    by (auto simp add: inv_pc_def main_step_def panic_def
        split: if_splits option.splits outcome.splits prod.splits)
next
  case MSave
  assume "inv_pc env s" "main_step env s = Some s'"
  with MSave show ?thesis
    by (auto simp add: inv_pc_def main_step_def)
next
  case MPrintln
  assume "inv_pc env s" "main_step env s = Some s'"
  with MPrintln show ?thesis
    by (auto simp add: inv_pc_def main_step_def)
next
  case MDone
  assume "inv_pc env s" "main_step env s = Some s'"
  with MDone show ?thesis
    by (auto simp add: inv_pc_def main_step_def)
qed

lemma inv_pc_worker:
  assumes "inv_pc env s" "worker_step env k s = Some s'"
  shows "inv_pc env s'"
proof (cases "k < length (workers s)")
  case False
  with assms show ?thesis by (simp add: worker_step_def Let_def)
next
  case True
  show ?thesis
  proof (cases "workers s ! k")
    case WRecv
    with assms True show ?thesis
      by (auto simp add: inv_pc_def worker_step_def Let_def panic_def split: if_splits list.splits)
  next
    case (WGot i)
    with assms True show ?thesis
      by (auto simp add: inv_pc_def worker_step_def Let_def)
  next
    case (WPrinted i)
    with assms True show ?thesis
      by (auto simp add: inv_pc_def worker_step_def Let_def panic_def split: outcome.splits prod.splits)
  next
    case (WFetched d)
    with assms True show ?thesis
      by (auto simp add: inv_pc_def worker_step_def Let_def panic_def split: if_splits)
  next
    case WDone
    with assms True show ?thesis
      by (simp add: worker_step_def Let_def)
  qed
qed

lemma inv_pc_closer:
  assumes "inv_pc env s" "closer_step s = Some s'"
  shows "inv_pc env s'"
  using assms
  by (cases "closer s")
     (auto simp add: inv_pc_def closer_step_def panic_def split: if_splits)

lemma live_zero: "live ws = 0 \<longleftrightarrow> (\<forall>w\<in>set ws. w = WDone)"
  by (auto simp add: live_def filter_empty_conv)

lemma in_set_update: "x \<in> set (ws[k := w]) \<Longrightarrow> x = w \<or> x \<in> set ws"
  using set_update_subset_insert[of ws k w] by auto

lemma inv_done_main:
  assumes "inv_done s" "inv_pc env s" "main_step env s = Some s'"
  shows "inv_done s'"
proof (cases "pc s")
  case MStart
  with assms show ?thesis
    by (auto simp add: inv_done_def inv_pc_def main_step_def panic_def Let_def make_chan_def
        split: if_splits)
next
  case (MSpawn i)
  with assms show ?thesis
    by (auto simp add: inv_done_def inv_pc_def main_step_def split: if_splits)
next
  case (MSend i)
  with assms show ?thesis
    by (auto simp add: inv_done_def inv_pc_def main_step_def panic_def split: if_splits)
next
  case MCloseJobs
  with assms show ?thesis
    by (auto simp add: inv_done_def inv_pc_def main_step_def panic_def split: if_splits)
next
  case MGoCloser
  with assms show ?thesis
    by (auto simp add: inv_done_def inv_pc_def main_step_def)
next
  case MCollect
  with assms show ?thesis
    by (auto simp add: inv_done_def main_step_def split: if_splits list.splits prod.splits)
next
  case (MBuild i)
  with assms show ?thesis
    by (auto simp add: inv_done_def main_step_def panic_def
        split: if_splits option.splits outcome.splits prod.splits)
next
  case MSave
  with assms show ?thesis by (auto simp add: inv_done_def main_step_def)
next
  case MPrintln
  with assms show ?thesis by (auto simp add: inv_done_def main_step_def)
next
  case MDone
  with assms show ?thesis by (auto simp add: inv_done_def main_step_def)
qed

lemma inv_done_worker:
  assumes "inv_done s" "worker_step env k s = Some s'"
  shows "inv_done s'"
proof (cases "k < length (workers s)")
  case False
  with assms show ?thesis by (simp add: worker_step_def Let_def)
next
  case True
  then have mem: "workers s ! k \<in> set (workers s)" by simp
  show ?thesis
  proof (cases "workers s ! k")
    case WRecv
    with assms True mem show ?thesis
      by (auto simp add: inv_done_def worker_step_def Let_def panic_def
          split: if_splits list.splits dest!: in_set_update)
  next
    case (WGot i)
    with assms True mem show ?thesis
      by (auto simp add: inv_done_def worker_step_def Let_def dest!: in_set_update)
  next
    case (WPrinted i)
    with assms True mem show ?thesis
      by (auto simp add: inv_done_def worker_step_def Let_def panic_def
          split: outcome.splits prod.splits dest!: in_set_update)
  next
    case (WFetched d)
    with assms True mem show ?thesis
      by (auto simp add: inv_done_def worker_step_def Let_def panic_def
          split: if_splits dest!: in_set_update)
  next
    case WDone
    with assms True show ?thesis by (simp add: worker_step_def Let_def)
  qed
qed

lemma inv_done_closer:
  assumes "inv_done s" "inv_wg s" "closer_step s = Some s'"
  shows "inv_done s'"
  using assms
  by (cases "closer s")
     (auto simp add: inv_done_def inv_wg_def closer_step_def panic_def live_zero split: if_splits)

lemma mset_Index_holding_update:
  assumes "k < length ws"
  shows "mset (map Index (concat (map holding (ws[k := w])))) + mset (map Index (holding (ws ! k))) =
         mset (map Index (concat (map holding ws))) + mset (map Index (holding w))"
proof -
  have "image_mset Index (mset (concat (map holding (ws[k := w]))) + mset (holding (ws ! k))) =
        image_mset Index (mset (concat (map holding ws)) + mset (holding w))"
    using mset_concat_map_update[OF assms, of holding w] by simp
  then show ?thesis by simp
qed

lemma inv_jobs_main:
  assumes "inv_jobs env s" "inv_pc env s" "main_step env s = Some s'"
  shows "inv_jobs env s'"
proof (cases "pc s")
  case MStart
  with assms show ?thesis
    by (auto simp add: inv_jobs_def main_step_def panic_def Let_def make_chan_def
        split: if_splits)
next
  case (MSpawn i)
  with assms show ?thesis
    by (auto simp add: inv_jobs_def main_step_def held_def split: if_splits)
next
  case (MSend i)
  show ?thesis
  proof (cases "i \<le> LastImageIndex env")
    case True
    from assms(2) MSend have "FirstImageIndex env \<le> i" by (simp add: inv_pc_def)
    then have u: "[FirstImageIndex env..i] = [FirstImageIndex env..i - 1] @ [i]"
      by (simp add: upto_rec2)
    from assms MSend True show ?thesis
      by (auto simp add: inv_jobs_def main_step_def panic_def u split: if_splits)
  next
    case False
    with assms(2) MSend have "i - 1 = LastImageIndex env" by (simp add: inv_pc_def)
    with assms(1,3) MSend False show ?thesis
      by (auto simp add: inv_jobs_def main_step_def)
  qed
next
  case MCloseJobs
  with assms show ?thesis
    by (auto simp add: inv_jobs_def main_step_def panic_def split: if_splits)
next
  case MGoCloser
  with assms show ?thesis
    by (auto simp add: inv_jobs_def main_step_def)
next
  case MCollect
  with assms show ?thesis
    by (auto simp add: inv_jobs_def main_step_def split: if_splits list.splits prod.splits)
next
  case (MBuild i)
  with assms show ?thesis
    by (auto simp add: inv_jobs_def main_step_def panic_def
        split: if_splits option.splits outcome.splits prod.splits)
next
  case MSave
  with assms show ?thesis by (auto simp add: inv_jobs_def main_step_def)
next
  case MPrintln
  with assms show ?thesis by (auto simp add: inv_jobs_def main_step_def)
next
  case MDone
  with assms show ?thesis by (auto simp add: inv_jobs_def main_step_def)
qed

lemma inv_jobs_worker:
  assumes "inv_jobs env s" "worker_step env k s = Some s'"
  shows "inv_jobs env s'"
proof (cases "k < length (workers s)")
  case False
  with assms show ?thesis by (simp add: worker_step_def Let_def)
next
  case True
  note u = mset_concat_map_update[OF True, of held]
  show ?thesis
  proof (cases "workers s ! k")
    case WRecv
    with assms True u[of "WGot (hd (buf (jobs s)))"] u[of WDone] show ?thesis
      by (auto simp add: inv_jobs_def worker_step_def Let_def panic_def held_def
          split: if_splits list.splits)
  next
    case (WGot i)
    with assms True u[of "WPrinted i"] show ?thesis
      by (auto simp add: inv_jobs_def worker_step_def Let_def held_def)
  next
    case (WPrinted i)
    have "\<And>d. mset (concat (map held ((workers s)[k := WFetched d]))) + {#i#} =
        mset (concat (map held (workers s)))"
      using u[of "WFetched _"] WPrinted by (simp add: held_def)
    then have "\<And>d. mset (concat (map held (workers s))) =
        mset (concat (map held ((workers s)[k := WFetched d]))) + {#i#}"
      by simp
    with assms True WPrinted show ?thesis
      by (auto simp add: inv_jobs_def worker_step_def Let_def panic_def
          split: outcome.splits prod.splits)
  next
    case (WFetched d)
    with assms True u[of WRecv] show ?thesis
      by (auto simp add: inv_jobs_def worker_step_def Let_def panic_def held_def split: if_splits)
  next
    case WDone
    with assms True show ?thesis by (simp add: worker_step_def Let_def)
  qed
qed

lemma inv_jobs_closer:
  assumes "inv_jobs env s" "closer_step s = Some s'"
  shows "inv_jobs env s'"
  using assms
  by (cases "closer s")
     (auto simp add: inv_jobs_def closer_step_def panic_def split: if_splits)

lemma holding_simps:
  "holding WRecv = []" "holding (WGot i) = []" "holding (WPrinted i) = []"
  "holding (WFetched d) = [d]" "holding WDone = []"
  by (simp_all add: holding_def)

lemma held_simps:
  "held WRecv = []" "held (WGot i) = [i]" "held (WPrinted i) = [i]"
  "held (WFetched d) = []" "held WDone = []"
  by (simp_all add: held_def)

lemma inv_res_main:
  assumes "inv_res s" "inv_jobs env s" "main_step env s = Some s'"
  shows "inv_res s'"
proof (cases "pc s")
  case MStart
  with assms show ?thesis
    by (auto simp add: inv_res_def inv_jobs_def main_step_def panic_def Let_def make_chan_def
        split: if_splits)
next
  case (MSpawn i)
  with assms show ?thesis
    by (auto simp add: inv_res_def main_step_def holding_def split: if_splits)
next
  case (MSend i)
  with assms show ?thesis
    by (auto simp add: inv_res_def main_step_def panic_def split: if_splits)
next
  case MCloseJobs
  with assms show ?thesis
    by (auto simp add: inv_res_def main_step_def panic_def split: if_splits)
next
  case MGoCloser
  with assms show ?thesis
    by (auto simp add: inv_res_def main_step_def)
next
  case MCollect
  with assms show ?thesis
    by (auto simp add: inv_res_def main_step_def split: if_splits list.splits prod.splits)
next
  case (MBuild i)
  with assms show ?thesis
    by (auto simp add: inv_res_def main_step_def panic_def
        split: if_splits option.splits outcome.splits prod.splits)
next
  case MSave
  with assms show ?thesis by (auto simp add: inv_res_def main_step_def)
next
  case MPrintln
  with assms show ?thesis by (auto simp add: inv_res_def main_step_def)
next
  case MDone
  with assms show ?thesis by (auto simp add: inv_res_def main_step_def)
qed

lemma inv_res_worker:
  assumes "inv_res s" "worker_step env k s = Some s'"
  shows "inv_res s'"
proof (cases "k < length (workers s)")
  case False
  with assms show ?thesis by (simp add: worker_step_def Let_def)
next
  case True
  note u = mset_Index_holding_update[OF True]
  show ?thesis
  proof (cases "workers s ! k")
    case WRecv
    with assms True u[of "WGot (hd (buf (jobs s)))"] u[of WDone] show ?thesis
      by (auto simp add: inv_res_def worker_step_def Let_def panic_def holding_def
          split: if_splits list.splits)
  next
    case (WGot i)
    with assms True u[of "WPrinted i"] show ?thesis
      by (auto simp add: inv_res_def worker_step_def Let_def holding_def)
  next
    case (WPrinted i)
    have "\<And>d. mset (map Index (concat (map holding ((workers s)[k := WFetched d])))) =
        mset (map Index (concat (map holding (workers s)))) + {#Index d#}"
      using u[of "WFetched _"] WPrinted by (simp add: holding_def)
    with assms True WPrinted show ?thesis
      by (auto simp add: inv_res_def worker_step_def Let_def panic_def
          split: outcome.splits prod.splits)
  next
    case (WFetched d)
    have "mset (map Index (concat (map holding ((workers s)[k := WRecv])))) + {#Index d#} =
        mset (map Index (concat (map holding (workers s))))"
      using u[of WRecv] WFetched by (simp add: holding_def)
    then have "mset (map Index (concat (map holding (workers s)))) =
        mset (map Index (concat (map holding ((workers s)[k := WRecv])))) + {#Index d#}"
      by simp
    with assms True WFetched show ?thesis
      by (auto simp add: inv_res_def worker_step_def Let_def panic_def split: if_splits)
  next
    case WDone
    with assms True show ?thesis by (simp add: worker_step_def Let_def)
  qed
qed

lemma inv_res_closer:
  assumes "inv_res s" "closer_step s = Some s'"
  shows "inv_res s'"
  using assms
  by (cases "closer s")
     (auto simp add: inv_res_def closer_step_def panic_def split: if_splits)

lemma inv_from_main:
  assumes "inv_from env s" "inv_res s" "main_step env s = Some s'"
  shows "inv_from env s'"
proof (cases "pc s")
  case MStart
  with assms show ?thesis
    by (auto simp add: inv_from_def main_step_def panic_def Let_def make_chan_def
        split: if_splits)
next
  case (MSpawn i)
  with assms show ?thesis
    by (auto simp add: inv_from_def main_step_def holding_def split: if_splits)
next
  case (MSend i)
  with assms show ?thesis
    by (auto simp add: inv_from_def main_step_def panic_def split: if_splits)
next
  case MCloseJobs
  with assms show ?thesis
    by (auto simp add: inv_from_def main_step_def panic_def split: if_splits)
next
  case MGoCloser
  with assms show ?thesis
    by (auto simp add: inv_from_def main_step_def)
next
  case MCollect
  with assms show ?thesis
    by (auto simp add: inv_from_def main_step_def split: if_splits list.splits prod.splits)
next
  case (MBuild i)
  with assms show ?thesis
    by (auto simp add: inv_from_def main_step_def panic_def
        split: if_splits option.splits outcome.splits prod.splits)
next
  case MSave
  with assms show ?thesis by (auto simp add: inv_from_def main_step_def)
next
  case MPrintln
  with assms show ?thesis by (auto simp add: inv_from_def main_step_def)
next
  case MDone
  with assms show ?thesis by (auto simp add: inv_from_def main_step_def)
qed

lemma holding_mem: "k < length ws \<Longrightarrow> ws ! k = WFetched d \<Longrightarrow> d \<in> set (concat (map holding ws))"
proof -
  assume a: "k < length ws" "ws ! k = WFetched d"
  then have "WFetched d \<in> set ws" by (metis nth_mem)
  then show ?thesis by (auto simp add: holding_simps intro!: bexI[of _ "WFetched d"])
qed

lemma inv_from_worker:
  assumes "inv_from env s" "worker_step env k s = Some s'"
  shows "inv_from env s'"
proof (cases "k < length (workers s)")
  case False
  with assms show ?thesis by (simp add: worker_step_def Let_def)
next
  case True
  show ?thesis
  proof (cases "workers s ! k")
    case WRecv
    with assms True show ?thesis
      by (auto simp add: inv_from_def worker_step_def Let_def panic_def holding_simps
          split: if_splits list.splits dest!: in_set_update)
  next
    case (WGot i)
    with assms True show ?thesis
      by (auto simp add: inv_from_def worker_step_def Let_def holding_simps dest!: in_set_update)
  next
    case (WPrinted i)
    with assms True show ?thesis
      by (auto simp add: inv_from_def worker_step_def Let_def panic_def holding_simps from_download_def
          split: outcome.splits prod.splits dest!: in_set_update)
  next
    case (WFetched d)
    with assms True holding_mem[OF True WFetched] show ?thesis
      by (auto simp add: inv_from_def worker_step_def Let_def panic_def holding_simps
          split: if_splits dest!: in_set_update)
  next
    case WDone
    with assms True show ?thesis by (simp add: worker_step_def Let_def)
  qed
qed

lemma inv_from_closer:
  assumes "inv_from env s" "closer_step s = Some s'"
  shows "inv_from env s'"
  using assms
  by (cases "closer s")
     (auto simp add: inv_from_def closer_step_def panic_def split: if_splits)

lemma fst_collect_body:
  "fst (collect_body d (m, out)) = (case Error d of Some e \<Rightarrow> m | None \<Rightarrow> m(Index d \<mapsto> Image d))"
  by (simp add: collect_body_def split: option.splits)

lemma collect_snoc: "collect (rs @ [d]) = collect_body d (collect rs)"
  by (simp add: collect_def)

lemma inv_map_main:
  assumes "inv_map s" "main_step env s = Some s'"
  shows "inv_map s'"
proof (cases "pc s")
  case MCollect
  show ?thesis
  proof (cases "buf (results s)")
    case Nil
    with assms MCollect show ?thesis
      by (auto simp add: inv_map_def main_step_def split: if_splits)
  next
    case (Cons d ds)
    obtain m out where c: "collect_body d (imageMap s, stdout s) = (m, out)"
      by (cases "collect_body d (imageMap s, stdout s)") auto
    obtain m0 out0 where c0: "collect (collected s) = (m0, out0)"
      by (cases "collect (collected s)") auto
    from assms(1) c0 have m0: "imageMap s = m0" by (simp add: inv_map_def)
    have "m = fst (collect_body d (imageMap s, stdout s))" using c by simp
    also have "\<dots> = fst (collect_body d (m0, out0))"
      by (simp only: fst_collect_body m0)
    finally have "m = fst (collect (collected s @ [d]))"
      by (simp add: collect_snoc c0)
    with assms MCollect Cons c show ?thesis
      by (auto simp add: inv_map_def main_step_def)
  qed
next
  case MStart
  with assms show ?thesis
    by (auto simp add: inv_map_def main_step_def panic_def Let_def split: if_splits)
next
  case (MSpawn i)
  with assms show ?thesis
    by (auto simp add: inv_map_def main_step_def split: if_splits)
next
  case (MSend i)
  with assms show ?thesis
    by (auto simp add: inv_map_def main_step_def panic_def split: if_splits)
next
  case MCloseJobs
  with assms show ?thesis
    by (auto simp add: inv_map_def main_step_def panic_def split: if_splits)
next
  case MGoCloser
  with assms show ?thesis
    by (auto simp add: inv_map_def main_step_def)
next
  case (MBuild i)
  with assms show ?thesis
    by (auto simp add: inv_map_def main_step_def panic_def
        split: if_splits option.splits outcome.splits prod.splits)
next
  case MSave
  with assms show ?thesis by (auto simp add: inv_map_def main_step_def)
next
  case MPrintln
  with assms show ?thesis by (auto simp add: inv_map_def main_step_def)
next
  case MDone
  with assms show ?thesis by (auto simp add: inv_map_def main_step_def)
qed

lemma inv_map_worker:
  assumes "inv_map s" "worker_step env k s = Some s'"
  shows "inv_map s'"
  using assms
  by (cases "workers s ! k")
     (auto simp add: inv_map_def worker_step_def Let_def panic_def
       split: if_splits list.splits outcome.splits prod.splits)

lemma inv_map_closer:
  assumes "inv_map s" "closer_step s = Some s'"
  shows "inv_map s'"
  using assms
  by (cases "closer s")
     (auto simp add: inv_map_def closer_step_def panic_def split: if_splits)

lemma ordered_empty: "hi < lo \<Longrightarrow> ordered lo hi m = []"
  by (simp add: ordered_def)

lemma ordered_snoc:
  "lo \<le> i \<Longrightarrow> ordered lo i m =
     ordered lo (i - 1) m @ (case m i of None \<Rightarrow> [] | Some img \<Rightarrow> [(i, img)])"
  by (simp add: ordered_def upto_rec2)

lemma AddImageToPDF_doc:
  "AddImageToPDF env doc img i = Returns (doc', e) \<Longrightarrow> doc' = doc @ build_doc env [(i, img)]"
  by (auto simp add: AddImageToPDF_def build_doc_def split: option.splits sum.splits)

lemma inv_build_main:
  assumes "inv_build env s" "inv_pc env s" "main_step env s = Some s'"
  shows "inv_build env s'"
proof (cases "pc s")
  case (MBuild i)
  from assms(2) MBuild have b: "FirstImageIndex env \<le> i" "i \<le> LastImageIndex env + 1"
    by (simp_all add: inv_pc_def)
  show ?thesis
  proof (cases "i \<le> LastImageIndex env")
    case False
    with b have "i - 1 = LastImageIndex env" by simp
    with assms MBuild False show ?thesis
      by (auto simp add: inv_build_def main_step_def)
  next
    case True
    show ?thesis
    proof (cases "imageMap s i")
      case None
      with assms MBuild True ordered_snoc[OF b(1), of "imageMap s"] show ?thesis
        by (auto simp add: inv_build_def main_step_def)
    next
      case (Some img)
      show ?thesis
      proof (cases "AddImageToPDF env (pdf s) img i")
        case Panics
        with assms MBuild True Some show ?thesis
          by (auto simp add: inv_build_def main_step_def panic_def)
      next
        case (Returns r)
        obtain doc e where r: "r = (doc, e)" by (cases r) auto
        from AddImageToPDF_doc[OF Returns[unfolded r]]
        have "doc = pdf s @ build_doc env [(i, img)]" .
        with assms MBuild True Some Returns r ordered_snoc[OF b(1), of "imageMap s"] show ?thesis
          by (auto simp add: inv_build_def main_step_def build_doc_def)
      qed
    qed
  qed
next
  case MCollect
  with assms show ?thesis
    by (auto simp add: inv_build_def main_step_def ordered_empty
        split: if_splits list.splits prod.splits)
next
  case MStart
  with assms show ?thesis
    by (auto simp add: inv_build_def main_step_def panic_def Let_def split: if_splits)
next
  case (MSpawn i)
  with assms show ?thesis
    by (auto simp add: inv_build_def main_step_def split: if_splits)
next
  case (MSend i)
  with assms show ?thesis
    by (auto simp add: inv_build_def main_step_def panic_def split: if_splits)
next
  case MCloseJobs
  with assms show ?thesis
    by (auto simp add: inv_build_def main_step_def panic_def split: if_splits)
next
  case MGoCloser
  with assms show ?thesis
    by (auto simp add: inv_build_def main_step_def)
next
  case MSave
  with assms show ?thesis by (auto simp add: inv_build_def main_step_def)
next
  case MPrintln
  with assms show ?thesis by (auto simp add: inv_build_def main_step_def)
next
  case MDone
  with assms show ?thesis by (auto simp add: inv_build_def main_step_def)
qed

lemma inv_build_worker:
  assumes "inv_build env s" "worker_step env k s = Some s'"
  shows "inv_build env s'"
  using assms
  by (cases "workers s ! k")
     (auto simp add: inv_build_def worker_step_def Let_def panic_def
       split: if_splits list.splits outcome.splits prod.splits)

lemma inv_build_closer:
  assumes "inv_build env s" "closer_step s = Some s'"
  shows "inv_build env s'"
  using assms
  by (cases "closer s")
     (auto simp add: inv_build_def closer_step_def panic_def split: if_splits)

lemma phase_ge6_all_done:
  "inv_done s \<Longrightarrow> phase (pc s) \<ge> 6 \<Longrightarrow> \<forall>w\<in>set (workers s). w = WDone"
  by (auto simp add: inv_done_def)

lemma collect_body_out:
  "collect_body d (m, out) = (m', out') \<Longrightarrow>
   out' = out @ (case Error d of None \<Rightarrow> []
                 | Some e \<Rightarrow> [error_downloading_line (Index d) e])"
  by (auto simp add: collect_body_def split: option.splits)

lemma inv_out_main:
  assumes "inv_out env s" "main_step env s = Some s'"
  shows "inv_out env s'"
proof (cases "pc s")
  case MCollect
  show ?thesis
  proof (cases "buf (results s)")
    case Nil
    with assms MCollect show ?thesis
      by (auto simp add: inv_out_def main_step_def split: if_splits)
  next
    case (Cons d ds)
    obtain m out where c: "collect_body d (imageMap s, stdout s) = (m, out)"
      by (cases "collect_body d (imageMap s, stdout s)") auto
    from collect_body_out[OF c] assms MCollect Cons c show ?thesis
      by (auto simp add: inv_out_def main_step_def split: option.splits)
  qed
next
  case (MBuild i)
  show ?thesis
  proof (cases "i \<le> LastImageIndex env")
    case False
    with assms MBuild show ?thesis
      by (auto simp add: inv_out_def main_step_def)
  next
    case True
    show ?thesis
    proof (cases "imageMap s i")
      case None
      with assms MBuild True show ?thesis
        by (auto simp add: inv_out_def main_step_def)
    next
      case (Some img)
      show ?thesis
      proof (cases "AddImageToPDF env (pdf s) img i")
        case Panics
        with assms MBuild True Some show ?thesis
          by (auto simp add: inv_out_def main_step_def panic_def)
      next
        case (Returns r)
        obtain doc e where r: "r = (doc, e)" by (cases r) auto
        have m: "\<And>m x. img = Some m \<Longrightarrow> png_Encode env m = Inl x \<Longrightarrow>
            e = Some (encode_failed x)"
          using Returns[unfolded r] by (auto simp add: AddImageToPDF_def)
        have s': "s' = s\<lparr>pdf := doc,
             stdout := stdout s @ (case e of None \<Rightarrow> []
                | Some msg \<Rightarrow> [error_adding_line i msg]),
             handed := handed s @ [(i, img)], pc := MBuild (i + 1)\<rparr>"
          using assms(2) MBuild True Some Returns r by (simp add: main_step_def)
        from assms(1) m show ?thesis
          unfolding s' by (auto simp add: inv_out_def)
      qed
    qed
  qed
next
  case MSave
  with assms show ?thesis
    by (auto simp add: inv_out_def main_step_def save_lines_def suffix_def)
next
  case MPrintln
  with assms show ?thesis
    by (auto simp add: inv_out_def main_step_def suffix_def)
next
  case MStart
  with assms show ?thesis
    by (auto simp add: inv_out_def main_step_def panic_def Let_def split: if_splits)
next
  case (MSpawn i)
  with assms show ?thesis
    by (auto simp add: inv_out_def main_step_def split: if_splits)
next
  case (MSend i)
  with assms show ?thesis
    by (auto simp add: inv_out_def main_step_def panic_def split: if_splits)
next
  case MCloseJobs
  with assms show ?thesis
    by (auto simp add: inv_out_def main_step_def panic_def split: if_splits)
next
  case MGoCloser
  with assms show ?thesis
    by (auto simp add: inv_out_def main_step_def)
next
  case MDone
  with assms show ?thesis by (auto simp add: inv_out_def main_step_def)
qed

lemma inv_out_worker:
  assumes "inv_out env s" "inv_done s" "worker_step env k s = Some s'"
  shows "inv_out env s'"
proof (cases "k < length (workers s)")
  case False
  with assms show ?thesis by (simp add: worker_step_def Let_def)
next
  case True
  then have mem: "workers s ! k \<in> set (workers s)" by simp
  have nd: "workers s ! k \<noteq> WDone" using assms(3) True by (auto simp add: worker_step_def Let_def)
  with mem phase_ge6_all_done[OF assms(2)] have ph: "\<not> phase (pc s) \<ge> 6" by auto
  then have pcs: "pc s \<noteq> MPrintln" "pc s \<noteq> MDone" by auto
  show ?thesis
  proof (cases "workers s ! k")
    case WRecv
    with assms True pcs show ?thesis
      by (auto simp add: inv_out_def worker_step_def Let_def panic_def split: if_splits list.splits)
  next
    case (WGot i)
    with assms True pcs show ?thesis
      by (auto simp add: inv_out_def worker_step_def Let_def)
  next
    case (WPrinted i)
    with assms True pcs show ?thesis
      by (auto simp add: inv_out_def worker_step_def Let_def panic_def split: outcome.splits prod.splits)
  next
    case (WFetched d)
    with assms True pcs show ?thesis
      by (auto simp add: inv_out_def worker_step_def Let_def panic_def split: if_splits)
  next
    case WDone
    with assms True show ?thesis by (simp add: worker_step_def Let_def)
  qed
qed

lemma inv_out_closer:
  assumes "inv_out env s" "closer_step s = Some s'"
  shows "inv_out env s'"
  using assms
  by (cases "closer s")
     (auto simp add: inv_out_def closer_step_def panic_def split: if_splits)

lemma Inv_init: "Inv env init"
  by (simp add: Inv_def init_def inv_wg_def inv_pc_def inv_done_def inv_jobs_def inv_res_def
      inv_from_def inv_map_def inv_build_def inv_out_def live_def make_chan_def collect_def
      build_doc_def)

lemma Inv_step:
  assumes "Inv env s" "step env t s = Some s'"
  shows "Inv env s'"
proof (cases t)
  case TMain
  with assms have m: "main_step env s = Some s'" by (simp add: step_def split: if_splits)
  from assms(1) show ?thesis
    unfolding Inv_def
    by (auto intro: inv_wg_main[OF _ m] inv_pc_main[OF _ m] inv_done_main[OF _ _ m]
        inv_jobs_main[OF _ _ m] inv_res_main[OF _ _ m] inv_from_main[OF _ _ m]
        inv_map_main[OF _ m] inv_build_main[OF _ _ m] inv_out_main[OF _ m])
next
  case (TWorker k)
  with assms have m: "worker_step env k s = Some s'" by (simp add: step_def split: if_splits)
  from assms(1) show ?thesis
    unfolding Inv_def
    by (auto intro: inv_wg_worker[OF _ m] inv_pc_worker[OF _ m] inv_done_worker[OF _ m]
        inv_jobs_worker[OF _ m] inv_res_worker[OF _ m] inv_from_worker[OF _ m]
        inv_map_worker[OF _ m] inv_build_worker[OF _ m] inv_out_worker[OF _ _ m])
next
  case TCloser
  with assms have m: "closer_step s = Some s'" by (simp add: step_def split: if_splits)
  from assms(1) show ?thesis
    unfolding Inv_def
    by (auto intro: inv_wg_closer[OF _ m] inv_pc_closer[OF _ m] inv_done_closer[OF _ _ m]
        inv_jobs_closer[OF _ m] inv_res_closer[OF _ m] inv_from_closer[OF _ m]
        inv_map_closer[OF _ m] inv_build_closer[OF _ m] inv_out_closer[OF _ m])
qed

lemma Inv_exec: "Inv env s \<Longrightarrow> exec env sched s = Some s' \<Longrightarrow> Inv env s'"
proof (induction sched arbitrary: s)
  case Nil
  then show ?case by simp
next
  case (Cons t ts)
  then show ?case by (auto split: option.splits dest: Inv_step)
qed

lemma Inv_run: "run env sched = Some s \<Longrightarrow> Inv env s"
  unfolding run_def by (rule Inv_exec[OF Inv_init])

lemma worker_mu_nonneg: "0 \<le> worker_mu w"
  by (cases w) auto

lemma sum_worker_mu_nonneg: "0 \<le> sum_list (map worker_mu ws)"
  by (induction ws) (auto simp add: worker_mu_nonneg)

lemma sum_worker_mu_update:
  "k < length ws \<Longrightarrow>
   sum_list (map worker_mu (ws[k := w])) = sum_list (map worker_mu ws) - worker_mu (ws ! k) + worker_mu w"
proof (induction ws arbitrary: k)
  case Nil
  then show ?case by simp
next
  case (Cons a ws)
  then show ?case by (cases k) auto
qed

lemma mu_nonneg:
  assumes "inv_pc env s" "0 \<le> job_count env"
  shows "0 \<le> mu env s"
proof -
  have "0 \<le> main_mu env (pc s)"
    using assms by (cases "pc s") (auto simp add: inv_pc_def job_count_def)
  moreover have "0 \<le> closer_mu (closer s)" by (cases "closer s") auto
  ultimately show ?thesis using sum_worker_mu_nonneg[of "workers s"] by (simp add: mu_def)
qed

lemma start_empty:
  assumes "inv_jobs env s" "inv_res s" "pc s = MStart"
  shows "buf (jobs s) = []" "buf (results s) = []"
  using assms by (auto simp add: inv_jobs_def inv_res_def)

lemma mu_main:
  assumes "Inv env s" "main_step env s = Some s'" "\<not> panicked s" "\<not> panicked s'"
  shows "mu env s' = mu env s - 1"
proof -
  from assms(1) have ipc: "inv_pc env s" and ij: "inv_jobs env s" and ir: "inv_res s"
    by (simp_all add: Inv_def)
  show ?thesis
  proof (cases "pc s")
    case MStart
    with assms(2-4) start_empty[OF ij ir MStart] show ?thesis
      by (auto simp add: mu_def main_step_def panic_def Let_def make_chan_def job_count_def
          split: if_splits)
  next
    case (MSpawn i)
    with assms(2-4) ipc show ?thesis
      by (auto simp add: mu_def main_step_def inv_pc_def job_count_def split: if_splits)
  next
    case (MSend i)
    with assms(2-4) ipc show ?thesis
      by (auto simp add: mu_def main_step_def panic_def inv_pc_def job_count_def split: if_splits)
  next
    case MCloseJobs
    with assms(2-4) show ?thesis
      by (auto simp add: mu_def main_step_def panic_def split: if_splits)
  next
    case MGoCloser
    with assms(2-4) ipc show ?thesis
      by (auto simp add: mu_def main_step_def inv_pc_def)
  next
    case MCollect
    with assms(2-4) show ?thesis
      by (auto simp add: mu_def main_step_def job_count_def split: if_splits list.splits prod.splits)
  next
    case (MBuild i)
    with assms(2-4) ipc show ?thesis
      by (auto simp add: mu_def main_step_def panic_def inv_pc_def
          split: if_splits option.splits outcome.splits prod.splits)
  next
    case MSave
    with assms(2-4) show ?thesis by (auto simp add: mu_def main_step_def)
  next
    case MPrintln
    with assms(2-4) show ?thesis by (auto simp add: mu_def main_step_def)
  next
    case MDone
    with assms(2-4) show ?thesis by (auto simp add: mu_def main_step_def)
  qed
qed

lemma mu_worker:
  assumes "worker_step env k s = Some s'" "\<not> panicked s" "\<not> panicked s'"
  shows "mu env s' = mu env s - 1"
proof (cases "k < length (workers s)")
  case False
  with assms show ?thesis by (simp add: worker_step_def Let_def)
next
  case True
  note u = sum_worker_mu_update[OF True]
  show ?thesis
  proof (cases "workers s ! k")
    case WRecv
    with assms True show ?thesis
      by (auto simp add: mu_def worker_step_def Let_def panic_def u split: if_splits list.splits)
  next
    case (WGot i)
    with assms True show ?thesis
      by (auto simp add: mu_def worker_step_def Let_def u)
  next
    case (WPrinted i)
    with assms True show ?thesis
      by (auto simp add: mu_def worker_step_def Let_def panic_def u split: outcome.splits prod.splits)
  next
    case (WFetched d)
    with assms True show ?thesis
      by (auto simp add: mu_def worker_step_def Let_def panic_def u split: if_splits)
  next
    case WDone
    with assms True show ?thesis by (simp add: worker_step_def Let_def)
  qed
qed

lemma mu_closer:
  assumes "closer_step s = Some s'" "\<not> panicked s" "\<not> panicked s'"
  shows "mu env s' = mu env s - 1"
  using assms
  by (cases "closer s") (auto simp add: mu_def closer_step_def panic_def split: if_splits)

lemma mu_step:
  assumes "Inv env s" "step env t s = Some s'" "\<not> panicked s'"
  shows "mu env s' = mu env s - 1"
proof -
  from assms(2) have np: "\<not> panicked s" by (auto simp add: step_def split: if_splits)
  show ?thesis
  proof (cases t)
    case TMain
    with assms np show ?thesis by (auto simp add: step_def intro: mu_main split: if_splits)
  next
    case (TWorker k)
    with assms np show ?thesis by (auto simp add: step_def intro: mu_worker split: if_splits)
  next
    case TCloser
    with assms np show ?thesis by (auto simp add: step_def intro: mu_closer split: if_splits)
  qed
qed

lemma fold_collect_Some:
  "fst (fold collect_body rs (m, out)) i = Some v \<Longrightarrow>
   m i = Some v \<or> (\<exists>d\<in>set rs. Index d = i \<and> Error d = None \<and> Image d = v)"
proof (induction rs arbitrary: m out)
  case Nil
  then show ?case by simp
next
  case (Cons d ds)
  show ?case
  proof (cases "Error d")
    case None
    have f: "fold collect_body (d # ds) (m, out) = fold collect_body ds (m(Index d \<mapsto> Image d), out)"
      by (simp add: collect_body_def None)
    from Cons.IH[OF Cons.prems[unfolded f]] None show ?thesis
      by (auto split: if_splits)
  next
    case (Some e)
    have f: "fold collect_body (d # ds) (m, out) =
        fold collect_body ds (m, out @ [error_downloading_line (Index d) e])"
      by (simp add: collect_body_def Some)
    from Cons.IH[OF Cons.prems[unfolded f]] show ?thesis by auto
  qed
qed

lemma from_download_image: "from_download env d \<Longrightarrow> Error d = None \<Longrightarrow> Image d \<noteq> None"
  by (cases "Image d") (auto simp add: from_download_def DownloadImage_def
      split: sum.splits outcome.splits)

lemma imageMap_not_nil:
  assumes "Inv env s" "imageMap s i = Some img"
  shows "img \<noteq> None"
proof -
  from assms have "fst (fold collect_body (collected s) (Map.empty, [])) i = Some img"
    by (simp add: Inv_def inv_map_def collect_def)
  from fold_collect_Some[OF this] obtain d where
    d: "d \<in> set (collected s)" "Error d = None" "Image d = img" by auto
  from assms(1) d(1) have "from_download env d"
    by (auto simp add: Inv_def inv_res_def inv_from_def)
  from from_download_image[OF this d(2)] d(3) show ?thesis by simp
qed

lemma DownloadImage_no_panic: "decodes_fit env \<Longrightarrow> DownloadImage env url \<noteq> Panics"
proof -
  assume a: "decodes_fit env"
  show ?thesis
  proof (cases "http_Get env url")
    case (Inl e)
    then show ?thesis by (simp add: DownloadImage_def)
  next
    case (Inr body)
    show ?thesis
    proof (cases "image_Decode env body")
      case (Inl e)
      with Inr show ?thesis by (simp add: DownloadImage_def)
    next
      case (Inr img)
      with a have "fits (Bounds img)" by (auto simp add: decodes_fit_def)
      from convertTo8Bit_fits[OF this] obtain q where "convertTo8Bit img = Returns q" by auto
      with Inr \<open>http_Get env url = Inr body\<close> show ?thesis by (simp add: DownloadImage_def)
    qed
  qed
qed

lemma live_pos: "k < length ws \<Longrightarrow> ws ! k \<noteq> WDone \<Longrightarrow> 1 \<le> live ws"
proof -
  assume a: "k < length ws" "ws ! k \<noteq> WDone"
  have "live ws \<noteq> 0" using a live_zero[of ws] nth_mem[OF a(1)] by auto
  then show ?thesis by simp
qed

lemma no_panic_main:
  assumes "Inv env s" "0 \<le> job_count env" "main_step env s = Some s'" "\<not> panicked s"
  shows "\<not> panicked s'"
proof -
  from assms(1) have ipc: "inv_pc env s" by (simp add: Inv_def)
  show ?thesis
  proof (cases "pc s")
    case MStart
    with assms(2-4) show ?thesis
      by (auto simp add: main_step_def panic_def Let_def job_count_def split: if_splits)
  next
    case (MSpawn i)
    with assms(3,4) show ?thesis by (auto simp add: main_step_def split: if_splits)
  next
    case (MSend i)
    with assms(3,4) ipc show ?thesis
      by (auto simp add: main_step_def panic_def inv_pc_def split: if_splits)
  next
    case MCloseJobs
    with assms(3,4) ipc show ?thesis
      by (auto simp add: main_step_def panic_def inv_pc_def split: if_splits)
  next
    case MGoCloser
    with assms(3,4) show ?thesis by (auto simp add: main_step_def)
  next
    case MCollect
    with assms(3,4) show ?thesis
      by (auto simp add: main_step_def split: if_splits list.splits prod.splits)
  next
    case (MBuild i)
    with assms(3,4) imageMap_not_nil[OF assms(1), of i] show ?thesis
      by (auto simp add: main_step_def panic_def AddImageToPDF_def
          split: if_splits option.splits outcome.splits prod.splits sum.splits)
  next
    case MSave
    with assms(3,4) show ?thesis by (auto simp add: main_step_def)
  next
    case MPrintln
    with assms(3,4) show ?thesis by (auto simp add: main_step_def)
  next
    case MDone
    with assms(3,4) show ?thesis by (auto simp add: main_step_def)
  qed
qed

lemma no_panic_worker:
  assumes "Inv env s" "decodes_fit env" "worker_step env k s = Some s'" "\<not> panicked s"
  shows "\<not> panicked s'"
proof (cases "k < length (workers s)")
  case False
  with assms show ?thesis by (simp add: worker_step_def Let_def)
next
  case True
  then have mem: "workers s ! k \<in> set (workers s)" by simp
  from assms(1) have iw: "inv_wg s" and idn: "inv_done s" by (simp_all add: Inv_def)
  show ?thesis
  proof (cases "workers s ! k")
    case WRecv
    with live_pos[OF True] iw have "1 \<le> wg s" by (simp add: inv_wg_def)
    with assms(3,4) True WRecv show ?thesis
      by (auto simp add: worker_step_def Let_def panic_def split: if_splits list.splits)
  next
    case (WGot i)
    with assms(3,4) True show ?thesis by (auto simp add: worker_step_def Let_def)
  next
    case (WPrinted i)
    with assms(3,4) True DownloadImage_no_panic[OF assms(2), of "image_url i"] show ?thesis
      by (auto simp add: worker_step_def Let_def panic_def split: outcome.splits prod.splits)
  next
    case (WFetched d)
    with idn mem have "\<not> is_closed (results s)" by (auto simp add: inv_done_def)
    with assms(3,4) True WFetched show ?thesis
      by (auto simp add: worker_step_def Let_def panic_def split: if_splits)
  next
    case WDone
    with assms True show ?thesis by (simp add: worker_step_def Let_def)
  qed
qed

lemma no_panic_closer:
  assumes "Inv env s" "closer_step s = Some s'" "\<not> panicked s"
  shows "\<not> panicked s'"
proof -
  from assms(1) have "inv_done s" by (simp add: Inv_def)
  with assms(2,3) show ?thesis
    by (cases "closer s") (auto simp add: closer_step_def panic_def inv_done_def split: if_splits)
qed

lemma no_panic_step:
  assumes "Inv env s" "0 \<le> job_count env" "decodes_fit env" "step env t s = Some s'"
  shows "\<not> panicked s'"
proof -
  from assms(4) have np: "\<not> panicked s" by (auto simp add: step_def split: if_splits)
  show ?thesis
  proof (cases t)
    case TMain
    with assms np show ?thesis by (auto simp add: step_def dest: no_panic_main split: if_splits)
  next
    case (TWorker k)
    with assms np show ?thesis by (auto simp add: step_def dest: no_panic_worker split: if_splits)
  next
    case TCloser
    with assms np show ?thesis by (auto simp add: step_def dest: no_panic_closer split: if_splits)
  qed
qed

lemma exec_safe:
  assumes "0 \<le> job_count env" "decodes_fit env"
  shows "Inv env s \<Longrightarrow> \<not> panicked s \<Longrightarrow> exec env sched s = Some s' \<Longrightarrow>
    \<not> panicked s' \<and> int (length sched) + mu env s' = mu env s"
proof (induction sched arbitrary: s)
  case Nil
  then show ?case by simp
next
  case (Cons t ts)
  from Cons.prems(3) obtain s1 where s1: "step env t s = Some s1" "exec env ts s1 = Some s'"
    by (auto split: option.splits)
  have i1: "Inv env s1" by (rule Inv_step[OF Cons.prems(1) s1(1)])
  have n1: "\<not> panicked s1" by (rule no_panic_step[OF Cons.prems(1) assms s1(1)])
  have m1: "mu env s1 = mu env s - 1" by (rule mu_step[OF Cons.prems(1) s1(1) n1])
  from Cons.IH[OF i1 n1 s1(2)] m1 show ?case by simp
qed

lemma mu_init: "mu env init = 2 * max 0 (WorkerCount env) + 7 * job_count env + 11"
  by (simp add: mu_def init_def make_chan_def)

lemma run_safe:
  assumes "0 \<le> job_count env" "decodes_fit env" "run env sched = Some s"
  shows "\<not> panicked s" and
    "int (length sched) + mu env s = 2 * max 0 (WorkerCount env) + 7 * job_count env + 11"
    and "0 \<le> mu env s"
proof -
  have p: "\<not> panicked init" by (simp add: init_def)
  from exec_safe[OF assms(1,2) Inv_init p assms(3)[unfolded run_def]]
  show "\<not> panicked s"
    and "int (length sched) + mu env s = 2 * max 0 (WorkerCount env) + 7 * job_count env + 11"
    by (simp_all add: mu_init)
  from Inv_run[OF assms(3)] have "inv_pc env s" by (simp add: Inv_def)
  from mu_nonneg[OF this assms(1)] show "0 \<le> mu env s" .
qed

lemma jobs_buf_bound:
  assumes "inv_jobs env s"
  shows "length (buf (jobs s)) \<le> length (sent env (pc s))"
proof -
  from assms have "size (mset (sent env (pc s))) =
      size (mset (buf (jobs s)) + mset (concat (map held (workers s))) + mset (downloads s))"
    by (simp add: inv_jobs_def)
  then show ?thesis by simp
qed

lemma main_enabled_send:
  assumes "Inv env s" "pc s = MSend i"
  shows "main_step env s \<noteq> None"
proof (cases "i \<le> LastImageIndex env")
  case False
  with assms(2) show ?thesis by (simp add: main_step_def)
next
  case True
  from assms have ipc: "inv_pc env s" and ij: "inv_jobs env s" by (simp_all add: Inv_def)
  from ipc assms(2) have c: "capacity (jobs s) = job_count env" "FirstImageIndex env \<le> i"
    by (simp_all add: inv_pc_def)
  from jobs_buf_bound[OF ij] assms(2) c(2)
  have "int (length (buf (jobs s))) \<le> i - FirstImageIndex env" by simp
  with True c(1) have "int (length (buf (jobs s))) < capacity (jobs s)"
    by (simp add: job_count_def)
  with assms(2) True show ?thesis by (simp add: main_step_def panic_def)
qed

lemma holding_nonempty_jobs:
  assumes "Inv env s" "k < length (workers s)" "workers s ! k = WFetched d"
  shows "1 \<le> job_count env"
proof -
  from assms(1) have ij: "inv_jobs env s" and ir: "inv_res s" by (simp_all add: Inv_def)
  have "concat (map holding (workers s)) \<noteq> []"
  proof
    assume "concat (map holding (workers s)) = []"
    with holding_mem[OF assms(2,3)] show False by (simp only: set_simps empty_iff)
  qed
  with ir have "downloads s \<noteq> []" by (auto simp add: inv_res_def)
  with ij have "sent env (pc s) \<noteq> []" by (auto simp add: inv_jobs_def)
  moreover from assms(1) have "inv_pc env s" by (simp add: Inv_def)
  ultimately have "FirstImageIndex env \<le> LastImageIndex env"
    by (cases "pc s") (auto simp add: inv_pc_def split: if_splits)
  then show ?thesis by (simp add: job_count_def)
qed

lemma worker_enabled:
  assumes "Inv env s" "k < length (workers s)" "workers s ! k \<noteq> WDone"
    "is_closed (jobs s)" "buf (results s) = []" "\<not> is_closed (results s)"
  shows "worker_step env k s \<noteq> None"
proof (cases "workers s ! k")
  case WRecv
  with assms(2,4) show ?thesis
    by (auto simp add: worker_step_def Let_def panic_def split: list.splits)
next
  case (WGot i)
  with assms(2) show ?thesis by (simp add: worker_step_def Let_def)
next
  case (WPrinted i)
  with assms(2) show ?thesis
    by (auto simp add: worker_step_def Let_def panic_def split: outcome.splits prod.splits)
next
  case (WFetched d)
  from assms(1) have ipc: "inv_pc env s" by (simp add: Inv_def)
  from assms(4) ipc have "capacity (results s) = job_count env" by (auto simp add: inv_pc_def)
  with holding_nonempty_jobs[OF assms(1,2) WFetched] assms(2,5,6) WFetched show ?thesis
    by (simp add: worker_step_def Let_def)
next
  case WDone
  with assms(3) show ?thesis by simp
qed

lemma progress:
  assumes "Inv env s" "\<not> panicked s" "pc s \<noteq> MDone"
  shows "\<exists>t. step env t s \<noteq> None"
proof -
  from assms(1) have ipc: "inv_pc env s" and idn: "inv_done s" and iw: "inv_wg s"
    by (simp_all add: Inv_def)
  have main: "main_step env s \<noteq> None \<Longrightarrow> ?thesis"
    using assms(2,3) by (auto simp add: step_def intro!: exI[of _ TMain])
  show ?thesis
  proof (cases "pc s")
    case MStart
    then show ?thesis by (intro main) (simp add: main_step_def panic_def Let_def)
  next
    case (MSpawn i)
    then show ?thesis by (intro main) (simp add: main_step_def)
  next
    case (MSend i)
    then show ?thesis by (intro main main_enabled_send[OF assms(1)])
  next
    case MCloseJobs
    then show ?thesis by (intro main) (simp add: main_step_def panic_def)
  next
    case MGoCloser
    then show ?thesis by (intro main) (simp add: main_step_def)
  next
    case (MBuild i)
    then show ?thesis
      by (intro main) (simp add: main_step_def panic_def split: option.splits outcome.splits prod.splits)
  next
    case MSave
    then show ?thesis by (intro main) (simp add: main_step_def)
  next
    case MPrintln
    then show ?thesis by (intro main) (simp add: main_step_def)
  next
    case MDone
    with assms(3) show ?thesis by simp
  next
    case MCollect
    show ?thesis
    proof (cases "buf (results s) \<noteq> [] \<or> is_closed (results s)")
      case True
      with MCollect show ?thesis
        by (intro main) (auto simp add: main_step_def split: list.splits prod.splits)
    next
      case False
      then have e: "buf (results s) = []" and nc: "\<not> is_closed (results s)" by auto
      from ipc MCollect have jc: "is_closed (jobs s)" and ci: "closer s \<noteq> CIdle"
        by (auto simp add: inv_pc_def)
      from idn nc have cd: "closer s \<noteq> CDone" by (auto simp add: inv_done_def)
      show ?thesis
      proof (cases "closer s = CClose \<or> wg s = 0")
        case True
        with ci cd nc have "closer_step s \<noteq> None"
          by (cases "closer s") (auto simp add: closer_step_def)
        with assms(2,3) show ?thesis by (auto simp add: step_def intro!: exI[of _ TCloser])
      next
        case False
        with iw have "live (workers s) \<noteq> 0" by (simp add: inv_wg_def)
        then obtain w where "w \<in> set (workers s)" "w \<noteq> WDone"
          using live_zero[of "workers s"] by auto
        then obtain k where k: "k < length (workers s)" "workers s ! k \<noteq> WDone"
          by (auto simp add: in_set_conv_nth)
        from worker_enabled[OF assms(1) k jc e nc] assms(2,3) show ?thesis
          by (auto simp add: step_def intro!: exI[of _ "TWorker k"])
      qed
    qed
  qed
qed

lemma all_done_gather:
  "\<forall>w\<in>set ws. w = WDone \<Longrightarrow> concat (map held ws) = [] \<and> concat (map holding ws) = []"
  by (auto simp add: held_simps holding_simps)

lemma sent_late: "6 \<le> phase p \<Longrightarrow> sent env p = [FirstImageIndex env..LastImageIndex env]"
  by (cases p) auto

lemma complete:
  assumes "Inv env s" "6 \<le> phase (pc s)" "1 \<le> WorkerCount env"
  shows "mset (downloads s) = mset [FirstImageIndex env..LastImageIndex env]"
    and "published s = collected s"
    and "mset (map Index (collected s)) = mset [FirstImageIndex env..LastImageIndex env]"
proof -
  from assms(1) have ipc: "inv_pc env s" and idn: "inv_done s" and ij: "inv_jobs env s"
    and ir: "inv_res s" by (simp_all add: Inv_def)
  have ad: "\<forall>w\<in>set (workers s). w = WDone" by (rule phase_ge6_all_done[OF idn assms(2)])
  from ipc assms(2) have "length (workers s) = nat (WorkerCount env)"
    by (cases "pc s") (auto simp add: inv_pc_def)
  with assms(3) have "workers s \<noteq> []" by auto
  then obtain w where "w \<in> set (workers s)" by (cases "workers s") auto
  with ad have "WDone \<in> set (workers s)" by auto
  with idn have jb: "buf (jobs s) = []" by (simp add: inv_done_def)
  from idn assms(2) have rb: "buf (results s) = []" by (simp add: inv_done_def)
  from ij jb all_done_gather[OF ad] sent_late[OF assms(2)]
  show d: "mset (downloads s) = mset [FirstImageIndex env..LastImageIndex env]"
    by (simp add: inv_jobs_def)
  from ir rb show p: "published s = collected s" by (simp add: inv_res_def)
  from ir all_done_gather[OF ad] d p
  show "mset (map Index (collected s)) = mset [FirstImageIndex env..LastImageIndex env]"
    by (simp add: inv_res_def)
qed

lemma final_imageMap:
  assumes "Inv env s" "6 \<le> phase (pc s)" "1 \<le> WorkerCount env"
  shows "imageMap s i = Some img \<longleftrightarrow>
    FirstImageIndex env \<le> i \<and> i \<le> LastImageIndex env \<and>
    DownloadImage env (image_url i) = Returns (img, None)"
proof -
  note c = complete[OF assms]
  from assms(1) have im: "imageMap s = fst (collect (collected s))"
    and fr: "\<forall>d\<in>set (collected s). from_download env d"
    by (auto simp add: Inv_def inv_map_def inv_from_def inv_res_def)
  have "distinct [FirstImageIndex env..LastImageIndex env]" by simp
  with c(3) have dist: "distinct (map Index (collected s))"
    by (metis mset_eq_imp_distinct_iff)
  have st: "Index ` set (collected s) = {FirstImageIndex env..LastImageIndex env}"
    using mset_eq_setD[OF c(3)] by simp
  show ?thesis
  proof
    assume "imageMap s i = Some img"
    with collect_map_iff[OF dist, of i img] im obtain d where
      d: "d \<in> set (collected s)" "Index d = i" "Error d = None" "Image d = img" by auto
    from d(1,2) st have "i \<in> {FirstImageIndex env..LastImageIndex env}" by auto
    moreover from fr d have "DownloadImage env (image_url i) = Returns (img, None)"
      by (auto simp add: from_download_def)
    ultimately show "FirstImageIndex env \<le> i \<and> i \<le> LastImageIndex env \<and>
      DownloadImage env (image_url i) = Returns (img, None)" by simp
  next
    assume a: "FirstImageIndex env \<le> i \<and> i \<le> LastImageIndex env \<and>
      DownloadImage env (image_url i) = Returns (img, None)"
    then have "i \<in> Index ` set (collected s)" using st by simp
    then obtain d where d: "d \<in> set (collected s)" "Index d = i" by auto
    with fr a have "Error d = None" "Image d = img" by (auto simp add: from_download_def)
    with d collect_map_iff[OF dist, of i img] im show "imageMap s i = Some img" by auto
  qed
qed

lemma final_ordered:
  assumes "Inv env s" "6 \<le> phase (pc s)" "1 \<le> WorkerCount env"
  shows "ordered (FirstImageIndex env) (LastImageIndex env) (imageMap s) = successes env"
proof -
  have "(case imageMap s i of None \<Rightarrow> [] | Some img \<Rightarrow> [(i, img)]) =
        (case DownloadImage env (image_url i) of Returns (img, None) \<Rightarrow> [(i, img)] | _ \<Rightarrow> [])"
    if "i \<in> set [FirstImageIndex env..LastImageIndex env]" for i
  proof (cases "imageMap s i")
    case None
    with final_imageMap[OF assms, of i] that show ?thesis
      by (auto split: outcome.splits option.splits prod.splits)
  next
    case (Some img)
    with final_imageMap[OF assms, of i img] show ?thesis by simp
  qed
  then show ?thesis
    unfolding ordered_def successes_def by (intro arg_cong[where f = concat] map_cong) auto
qed

section \<open>The run of the stub environment\<close>

lemma itoa_digits: "itoa 1 = ''1''" "itoa 2 = ''2''" "itoa 3 = ''3''"
  by code_simp+

lemma image_url_w: "image_url 1 = ''XX/1.XX''" "image_url 2 = ''XX/2.XX''" "image_url 3 = ''XX/3.XX''"
  by (simp_all add: image_url_def itoa_digits)

lemma fits_img1: "fits (Bounds (OtherImage img1))"
  by (simp add: fits_def img1_def Dx_def Dy_def Pt_def maxInt_def)

lemma fits_img3: "fits (Bounds (OtherImage img3))"
  by (simp add: fits_def img3_def Dx_def Dy_def Pt_def maxInt_def)

lemma decodes_fit_w: "decodes_fit env_w"
  using fits_img1 fits_img3 by (auto simp add: decodes_fit_def env_w_def split: if_splits)

lemma download_w:
  "DownloadImage env_w ''XX/1.XX'' = Returns (Some (RGBAImage rgba1), None)"
  "DownloadImage env_w ''XX/2.XX'' = Returns (None, Some (download_failed ''connection refused''))"
  "DownloadImage env_w ''XX/3.XX'' = Returns (Some (RGBAImage rgba3), None)"
  using NewRGBA_fits[OF fits_img1] NewRGBA_fits[OF fits_img3]
  by (simp_all add: DownloadImage_def env_w_def convertTo8Bit_def rgba1_def rgba3_def)

lemma encode_w:
  "png_Encode env_w (RGBAImage rgba1) = Inr [137, 80, 78, 71]"
  "png_Encode env_w (RGBAImage rgba3) = Inl ''png: invalid format: invalid image size''"
  by (simp_all add: env_w_def rgba1_def rgba3_def Rect_Draw_Src img1_def img3_def Dx_def Dy_def Pt_def)

lemma env_w_fields:
  "FirstImageIndex env_w = 1" "LastImageIndex env_w = 3" "WorkerCount env_w = 2"
  "OutputFileAndClose env_w doc path = Some ''permission denied''"
  by (simp_all add: env_w_def)

lemma run_w:
  "\<exists>s. run env_w sched_w = Some s \<and> pc s = MDone"
  by (simp add: run_def sched_w_def init_def step_def main_step_def worker_step_def
      closer_step_def panic_def make_chan_def env_w_fields image_url_w download_w encode_w
      collect_body_def AddImageToPDF_def Let_def)

section \<open>Properties of complete runs\<close>

lemma stuck_done:
  assumes "FirstImageIndex env \<le> LastImageIndex env + 1" "decodes_fit env"
    "run env sched = Some s" "\<forall>t. step env t s = None"
  shows "pc s = MDone" "\<not> panicked s"
proof -
  from assms(1) have j: "0 \<le> job_count env" by (simp add: job_count_def)
  show np: "\<not> panicked s" by (rule run_safe(1)[OF j assms(2,3)])
  show "pc s = MDone"
  proof (rule ccontr)
    assume "pc s \<noteq> MDone"
    from progress[OF Inv_run[OF assms(3)] np this] assms(4) show False by simp
  qed
qed

text \<open>Every run can be continued to its end.\<close>

lemma exec_append:
  "exec env (a @ b) s = (case exec env a s of None \<Rightarrow> None | Some s1 \<Rightarrow> exec env b s1)"
  by (induction a arbitrary: s) (auto split: option.splits)

lemma exec_can_finish:
  assumes j: "0 \<le> job_count env" and d: "decodes_fit env"
  shows "Inv env s \<Longrightarrow> \<not> panicked s \<Longrightarrow>
    \<exists>sched' s'. exec env sched' s = Some s' \<and> pc s' = MDone"
proof (induction "nat (mu env s)" arbitrary: s rule: less_induct)
  case less
  show ?case
  proof (cases "pc s = MDone")
    case True
    then have "exec env [] s = Some s \<and> pc s = MDone" by simp
    then show ?thesis by blast
  next
    case False
    from progress[OF less.prems False] obtain t s1 where s1: "step env t s = Some s1" by auto
    have i1: "Inv env s1" by (rule Inv_step[OF less.prems(1) s1])
    have n1: "\<not> panicked s1" by (rule no_panic_step[OF less.prems(1) j d s1])
    have m1: "mu env s1 = mu env s - 1" by (rule mu_step[OF less.prems(1) s1 n1])
    from i1 have "inv_pc env s1" by (simp add: Inv_def)
    from mu_nonneg[OF this j] m1 have "nat (mu env s1) < nat (mu env s)" by simp
    from less.hyps[OF this i1 n1] obtain sched' s' where
      "exec env sched' s1 = Some s'" "pc s' = MDone" by blast
    with s1 have "exec env (t # sched') s = Some s' \<and> pc s' = MDone" by simp
    then show ?thesis by blast
  qed
qed

lemma run_can_finish:
  assumes "FirstImageIndex env \<le> LastImageIndex env + 1" and "decodes_fit env"
    and "run env sched = Some s"
  shows "\<exists>sched' s'. run env (sched @ sched') = Some s' \<and> pc s' = MDone \<and>
    (\<forall>t. step env t s' = None)"
proof -
  from assms(1) have j: "0 \<le> job_count env" by (simp add: job_count_def)
  from exec_can_finish[OF j assms(2) Inv_run[OF assms(3)] run_safe(1)[OF j assms(2,3)]]
  obtain sched' s' where f: "exec env sched' s = Some s'" "pc s' = MDone" by blast
  with assms(3) have "run env (sched @ sched') = Some s'" by (simp add: run_def exec_append)
  moreover from f(2) have "\<forall>t. step env t s' = None" by (simp add: step_def)
  ultimately show ?thesis using f(2) by blast
qed

lemma map_fst_successes:
  "map fst (successes env) =
     filter (\<lambda>i. \<exists>img. DownloadImage env (image_url i) = Returns (img, None))
       [FirstImageIndex env..LastImageIndex env]"
proof -
  have "map fst (concat (map (\<lambda>i. case DownloadImage env (image_url i) of
            Returns (img, None) \<Rightarrow> [(i, img)] | _ \<Rightarrow> []) xs)) =
        filter (\<lambda>i. \<exists>img. DownloadImage env (image_url i) = Returns (img, None)) xs" for xs
    by (induction xs) (auto split: outcome.splits option.splits prod.splits)
  then show ?thesis by (simp add: successes_def)
qed

lemma sorted_successes: "sorted_wrt (<) (map fst (successes env))"
proof -
  have "sorted_wrt (<) [FirstImageIndex env..LastImageIndex env]"
    by (simp add: strict_sorted_iff)
  then show ?thesis unfolding map_fst_successes by (rule sorted_wrt_filter)
qed

lemma DownloadImage_image: "DownloadImage env url = Returns (img, None) \<Longrightarrow> img \<noteq> None"
  by (auto simp add: DownloadImage_def split: sum.splits outcome.splits)

lemma successes_mem:
  "(i, img) \<in> set (successes env) \<longleftrightarrow>
     FirstImageIndex env \<le> i \<and> i \<le> LastImageIndex env \<and>
     DownloadImage env (image_url i) = Returns (img, None)"
  by (auto simp add: successes_def split: outcome.splits option.splits prod.splits)

lemma successes_not_nil: "p \<in> set (successes env) \<Longrightarrow> snd p \<noteq> None"
  using successes_mem[of "fst p" "snd p" env] DownloadImage_image[of env _ "snd p"] by auto

text \<open>
  C1: the sequence handed to the document builder. Take a configuration whose channel
  size is not negative, at least one worker, and a decoder that returns images whose
  buffers can be allocated. In every run that has come to its end (no goroutine can take
  a step), the pairs handed to \<open>AddImageToPDF\<close> are exactly the indices of the
  range whose download returned no error, each with its bitmap, in strictly ascending
  order; an index whose download returned an error has no entry, and no entry is nil.
\<close>

theorem handed_sequence_ordered_successes:
  assumes "FirstImageIndex env \<le> LastImageIndex env + 1" and "decodes_fit env"
    and "1 \<le> WorkerCount env" and "run env sched = Some s" and "\<forall>t. step env t s = None"
  shows "handed s = successes env \<and> sorted_wrt (<) (map fst (handed s)) \<and>
     set (map fst (handed s)) =
       {i. FirstImageIndex env \<le> i \<and> i \<le> LastImageIndex env \<and>
           (\<exists>img. DownloadImage env (image_url i) = Returns (img, None))} \<and>
     (\<forall>p\<in>set (handed s). snd p \<noteq> None)"
proof -
  have i: "Inv env s" by (rule Inv_run[OF assms(4)])
  have d: "pc s = MDone" by (rule stuck_done(1)[OF assms(1,2,4,5)])
  then have ph: "6 \<le> phase (pc s)" by simp
  from i d have "handed s = ordered (FirstImageIndex env) (LastImageIndex env) (imageMap s)"
    by (simp add: Inv_def inv_build_def)
  then have h: "handed s = successes env" by (simp only: final_ordered[OF i ph assms(3)])
  have "set (map fst (successes env)) =
       {i. FirstImageIndex env \<le> i \<and> i \<le> LastImageIndex env \<and>
           (\<exists>img. DownloadImage env (image_url i) = Returns (img, None))}"
    unfolding map_fst_successes by auto
  with h sorted_successes[of env] successes_not_nil[of _ env] show ?thesis by auto
qed

lemma successes_w: "successes env_w = [(1, Some (RGBAImage rgba1)), (3, Some (RGBAImage rgba3))]"
proof -
  have u: "[1..3] = [1, 2, 3::int]" by (simp add: upto.simps)
  show ?thesis by (simp add: successes_def env_w_fields u image_url_w download_w)
qed

lemma stuck_w: "pc s = MDone \<Longrightarrow> \<forall>t. step env_w t s = None"
  by (simp add: step_def)

theorem handed_sequence_ordered_successes_witness:
  "\<exists>s. run env_w sched_w = Some s \<and> (\<forall>t. step env_w t s = None) \<and>
     FirstImageIndex env_w \<le> LastImageIndex env_w + 1 \<and> decodes_fit env_w \<and>
     1 \<le> WorkerCount env_w \<and>
     handed s = [(1, Some (RGBAImage rgba1)), (3, Some (RGBAImage rgba3))] \<and>
     sorted_wrt (<) (map fst (handed s))"
proof -
  from run_w obtain s where s: "run env_w sched_w = Some s" "pc s = MDone" by auto
  have r: "FirstImageIndex env_w \<le> LastImageIndex env_w + 1" by (simp add: env_w_fields)
  have w: "1 \<le> WorkerCount env_w" by (simp add: env_w_fields)
  from handed_sequence_ordered_successes[OF r decodes_fit_w w s(1) stuck_w[OF s(2)]]
  have "handed s = successes env_w" "sorted_wrt (<) (map fst (handed s))" by auto
  with s r w decodes_fit_w stuck_w[OF s(2)] show ?thesis
    by (auto simp add: successes_w)
qed
























text \<open>
  C5: \<open>results\<close> is closed only after every worker has returned, and the collector
  stops only at the end of the stream. In every state of every run in which
  \<open>results\<close> is closed, all \<open>WorkerCount\<close> workers have been started and have
  returned; and a step of \<open>main\<close> leaves the collecting loop only from a state in
  which \<open>results\<close> is closed and empty (the loop has no counter).
\<close>

theorem results_closed_after_workers:
  assumes "run env sched = Some s"
  shows "(is_closed (results s) \<longrightarrow>
            length (workers s) = nat (WorkerCount env) \<and> (\<forall>w\<in>set (workers s). w = WDone)) \<and>
         (\<forall>s'. pc s = MCollect \<and> step env TMain s = Some s' \<and> pc s' \<noteq> MCollect \<longrightarrow>
            is_closed (results s) \<and> buf (results s) = [])"
proof -
  have i: "Inv env s" by (rule Inv_run[OF assms])
  then have ipc: "inv_pc env s" and idn: "inv_done s" by (simp_all add: Inv_def)
  have a: "length (workers s) = nat (WorkerCount env) \<and> (\<forall>w\<in>set (workers s). w = WDone)"
    if c: "is_closed (results s)"
  proof -
    from idn c have cd: "closer s = CDone" by (simp add: inv_done_def)
    with idn have ad: "\<forall>w\<in>set (workers s). w = WDone" by (simp add: inv_done_def)
    from cd ipc have "5 \<le> phase (pc s)" by (auto simp add: inv_pc_def)
    with ipc have "length (workers s) = nat (WorkerCount env)"
      by (cases "pc s") (auto simp add: inv_pc_def)
    with ad show ?thesis by simp
  qed
  have b: "is_closed (results s) \<and> buf (results s) = []"
    if "pc s = MCollect \<and> step env TMain s = Some s' \<and> pc s' \<noteq> MCollect" for s'
    using that
    by (auto simp add: step_def main_step_def split: if_splits list.splits prod.splits)
  from a b show ?thesis by blast
qed

lemma run_w_collect:
  "\<exists>s s'. run env_w (take 29 sched_w) = Some s \<and> pc s = MCollect \<and>
     step env_w TMain s = Some s' \<and> pc s' = MBuild 1"
  by (simp add: run_def sched_w_def init_def step_def main_step_def worker_step_def
      closer_step_def panic_def make_chan_def env_w_fields image_url_w download_w encode_w
      collect_body_def AddImageToPDF_def Let_def)

theorem results_closed_after_workers_witness:
  "\<exists>s s'. run env_w (take 29 sched_w) = Some s \<and> pc s = MCollect \<and>
     step env_w TMain s = Some s' \<and> pc s' \<noteq> MCollect \<and>
     is_closed (results s) \<and> buf (results s) = [] \<and>
     length (workers s) = 2 \<and> (\<forall>w\<in>set (workers s). w = WDone)"
proof -
  from run_w_collect obtain s s' where s: "run env_w (take 29 sched_w) = Some s"
    "pc s = MCollect" "step env_w TMain s = Some s'" "pc s' = MBuild 1" by blast
  from results_closed_after_workers[OF s(1)] s(2,3,4)
  have c: "is_closed (results s)" "buf (results s) = []" by auto
  with results_closed_after_workers[OF s(1)]
  have "length (workers s) = 2" "\<forall>w\<in>set (workers s). w = WDone"
    by (simp_all add: env_w_fields)
  with s c show ?thesis by auto
qed

lemma page_count_build_doc:
  "page_count (build_doc env hs) =
     length (filter (\<lambda>(i, img). \<exists>m b. img = Some m \<and> png_Encode env m = Inr b) hs)"
proof (induction hs)
  case Nil
  then show ?case by (simp add: build_doc_def page_count_def)
next
  case (Cons h hs)
  obtain i img where h: "h = (i, img)" by (cases h) auto
  have "build_doc env (h # hs) = build_doc env [h] @ build_doc env hs"
    by (simp add: build_doc_def)
  then have "page_count (build_doc env (h # hs)) =
      page_count (build_doc env [h]) + page_count (build_doc env hs)"
    by (simp add: page_count_def)
  moreover have "page_count (build_doc env [h]) =
      (if \<exists>m b. img = Some m \<and> png_Encode env m = Inr b then 1 else 0)"
    by (auto simp add: h build_doc_def page_count_def page_calls_def Let_def
        split: option.splits sum.splits)
  ultimately show ?case using Cons.IH by (simp add: h)
qed

text \<open>The steps of the program do not depend on the error the document holds.\<close>

lemma DownloadImage_pdf_Error [simp]:
  "DownloadImage (env\<lparr>pdf_Error := f\<rparr>) url = DownloadImage env url"
  by (simp add: DownloadImage_def split: sum.splits)

lemma AddImageToPDF_pdf_Error [simp]:
  "AddImageToPDF (env\<lparr>pdf_Error := f\<rparr>) doc img i = AddImageToPDF env doc img i"
  by (simp add: AddImageToPDF_def split: option.splits sum.splits)

lemma main_step_pdf_Error: "main_step (env\<lparr>pdf_Error := f\<rparr>) s = main_step env s"
  by (cases "pc s") (simp_all add: main_step_def split: list.splits option.splits)

lemma worker_step_pdf_Error: "worker_step (env\<lparr>pdf_Error := f\<rparr>) k s = worker_step env k s"
  by (cases "workers s ! k") (simp_all add: worker_step_def Let_def)

lemma step_pdf_Error: "step (env\<lparr>pdf_Error := f\<rparr>) t s = step env t s"
  by (cases t) (simp_all add: step_def main_step_pdf_Error worker_step_pdf_Error)

lemma exec_pdf_Error: "exec (env\<lparr>pdf_Error := f\<rparr>) sched s = exec env sched s"
  by (induction sched arbitrary: s) (simp_all add: step_pdf_Error split: option.splits)

lemma run_pdf_Error: "run (env\<lparr>pdf_Error := f\<rparr>) sched = run env sched"
  by (simp add: run_def exec_pdf_Error)

lemma only_encode_errors:
  assumes "AddImageToPDF env doc img i = Returns (doc', Some e)"
  shows "doc' = doc \<and> (\<exists>m x. img = Some m \<and> png_Encode env m = Inl x \<and> e = encode_failed x)"
  using assms by (auto simp add: AddImageToPDF_def split: option.splits sum.splits)

text \<open>
  C8: no error is fatal. Take a configuration whose channel size is not negative, at
  least one worker, and a decoder that returns images whose buffers can be allocated;
  the download, the decoding, the encoding and the writing of the document may fail in
  any way. Then every run is finite and never panics, and when it has come to its end
  \<open>main\<close> has returned normally; every index whose download succeeded was handed
  to \<open>AddImageToPDF\<close> whatever happened to the others; the document holds the pages
  of exactly those of them that could be encoded, in order; each failed download, each
  failed encoding and a failed writing of the document is reported on standard output.
  An error of the document at a page is not among them: the program never reads it.
  The run is the same whatever error the document holds, and the only error
  \<open>AddImageToPDF\<close> returns is that of the encoder, with the document left as it
  was.
\<close>

theorem errors_are_not_fatal:
  assumes "FirstImageIndex env \<le> LastImageIndex env + 1" and "decodes_fit env"
    and "1 \<le> WorkerCount env" and "run env sched = Some s"
  shows "\<not> panicked s \<and>
     int (length sched) \<le> 2 * WorkerCount env + 7 * job_count env + 11 \<and>
     (\<forall>f. run (env\<lparr>pdf_Error := f\<rparr>) sched = Some s) \<and>
     (\<forall>doc img i doc' e. AddImageToPDF env doc img i = Returns (doc', Some e) \<longrightarrow>
        doc' = doc \<and> (\<exists>m x. img = Some m \<and> png_Encode env m = Inl x \<and> e = encode_failed x)) \<and>
     ((\<forall>t. step env t s = None) \<longrightarrow>
        pc s = MDone \<and> handed s = successes env \<and>
        pdf s = build_doc env (successes env) \<and>
        page_count (pdf s) =
          length (filter (\<lambda>(i, img). \<exists>m b. img = Some m \<and> png_Encode env m = Inr b)
            (successes env)) \<and>
        (\<forall>i img e. FirstImageIndex env \<le> i \<and> i \<le> LastImageIndex env \<and>
            DownloadImage env (image_url i) = Returns (img, Some e) \<longrightarrow>
            error_downloading_line i e \<in> set (stdout s)) \<and>
        (\<forall>i m e. (i, Some m) \<in> set (successes env) \<and> png_Encode env m = Inl e \<longrightarrow>
            error_adding_line i (encode_failed e) \<in> set (stdout s)) \<and>
        (\<forall>msg. OutputFileAndClose env (pdf s) ''final_output.pdf'' = Some msg \<longrightarrow>
            error_saving_line msg \<in> set (stdout s)))"
proof -
  from assms(1) have j: "0 \<le> job_count env" by (simp add: job_count_def)
  note rs = run_safe[OF j assms(2,4)]
  have i: "Inv env s" by (rule Inv_run[OF assms(4)])
  from rs(2,3) assms(3)
  have len: "int (length sched) \<le> 2 * WorkerCount env + 7 * job_count env + 11" by simp
  have fin: "pc s = MDone \<and> handed s = successes env \<and>
        pdf s = build_doc env (successes env) \<and>
        page_count (pdf s) =
          length (filter (\<lambda>(i, img). \<exists>m b. img = Some m \<and> png_Encode env m = Inr b)
            (successes env)) \<and>
        (\<forall>i img e. FirstImageIndex env \<le> i \<and> i \<le> LastImageIndex env \<and>
            DownloadImage env (image_url i) = Returns (img, Some e) \<longrightarrow>
            error_downloading_line i e \<in> set (stdout s)) \<and>
        (\<forall>i m e. (i, Some m) \<in> set (successes env) \<and> png_Encode env m = Inl e \<longrightarrow>
            error_adding_line i (encode_failed e) \<in> set (stdout s)) \<and>
        (\<forall>msg. OutputFileAndClose env (pdf s) ''final_output.pdf'' = Some msg \<longrightarrow>
            error_saving_line msg \<in> set (stdout s))"
    if st: "\<forall>t. step env t s = None"
  proof -
    have d: "pc s = MDone" by (rule stuck_done(1)[OF assms(1,2,4) st])
    then have ph: "6 \<le> phase (pc s)" by simp
    from i have ib: "inv_build env s" and io: "inv_out env s" and ifr: "inv_from env s"
      by (simp_all add: Inv_def)
    note c = complete[OF i ph assms(3)]
    from ib d have "handed s = ordered (FirstImageIndex env) (LastImageIndex env) (imageMap s)"
      by (simp add: inv_build_def)
    then have h: "handed s = successes env" by (simp only: final_ordered[OF i ph assms(3)])
    from ib h have p: "pdf s = build_doc env (successes env)" by (simp add: inv_build_def)
    have e1: "error_downloading_line k e \<in> set (stdout s)"
      if k: "FirstImageIndex env \<le> k \<and> k \<le> LastImageIndex env \<and>
            DownloadImage env (image_url k) = Returns (img, Some e)" for k img e
    proof -
      from k have "k \<in> set [FirstImageIndex env..LastImageIndex env]" by simp
      then have "k \<in> set (map Index (collected s))"
        using mset_eq_setD[OF c(3)] by simp
      then obtain x where x: "x \<in> set (collected s)" "Index x = k" by auto
      from ifr c(2) x(1) have "from_download env x" by (simp add: inv_from_def)
      with k x(2) have "Error x = Some e" by (simp add: from_download_def)
      with io x show ?thesis by (auto simp add: inv_out_def)
    qed
    have e2: "error_adding_line k (encode_failed e) \<in> set (stdout s)"
      if "(k, Some m) \<in> set (successes env) \<and> png_Encode env m = Inl e" for k m e
      using that io h by (auto simp add: inv_out_def)
    have e3: "error_saving_line msg \<in> set (stdout s)"
      if "OutputFileAndClose env (pdf s) ''final_output.pdf'' = Some msg" for msg
    proof -
      from io d have "suffix (save_lines env (pdf s) @ [success_line]) (stdout s)"
        by (simp add: inv_out_def)
      then have "set (save_lines env (pdf s) @ [success_line]) \<subseteq> set (stdout s)"
        by (rule set_mono_suffix)
      with that show ?thesis by (simp add: save_lines_def)
    qed
    from d h p e1 e2 e3 page_count_build_doc[of env "successes env"] show ?thesis by auto
  qed
  have b: "\<forall>f. run (env\<lparr>pdf_Error := f\<rparr>) sched = Some s"
    using assms(4) by (simp add: run_pdf_Error)
  have o: "\<forall>doc img i doc' e. AddImageToPDF env doc img i = Returns (doc', Some e) \<longrightarrow>
        doc' = doc \<and> (\<exists>m x. img = Some m \<and> png_Encode env m = Inl x \<and> e = encode_failed x)"
    by (blast dest: only_encode_errors)
  from rs(1) len b o fin show ?thesis by blast
qed

theorem errors_are_not_fatal_witness:
  "\<exists>s. run env_w sched_w = Some s \<and> (\<forall>t. step env_w t s = None) \<and>
     FirstImageIndex env_w \<le> LastImageIndex env_w + 1 \<and> decodes_fit env_w \<and>
     1 \<le> WorkerCount env_w \<and>
     \<not> panicked s \<and> pc s = MDone \<and> length sched_w = 36 \<and>
     run (env_w\<lparr>pdf_Error := (\<lambda>doc. Some ''page rejected'')\<rparr>) sched_w = Some s \<and>
     handed s = [(1, Some (RGBAImage rgba1)), (3, Some (RGBAImage rgba3))] \<and>
     page_count (pdf s) = 1 \<and>
     error_downloading_line 2 (download_failed ''connection refused'') \<in> set (stdout s) \<and>
     error_adding_line 3 (encode_failed ''png: invalid format: invalid image size'')
       \<in> set (stdout s) \<and>
     error_saving_line ''permission denied'' \<in> set (stdout s)"
proof -
  from run_w obtain s where s: "run env_w sched_w = Some s" "pc s = MDone" by auto
  have r: "FirstImageIndex env_w \<le> LastImageIndex env_w + 1" by (simp add: env_w_fields)
  have w: "1 \<le> WorkerCount env_w" by (simp add: env_w_fields)
  note t = errors_are_not_fatal[OF r decodes_fit_w w s(1)]
  from t have np: "\<not> panicked s" by simp
  from t have b: "run (env_w\<lparr>pdf_Error := (\<lambda>doc. Some ''page rejected'')\<rparr>) sched_w = Some s"
    by blast
  from t stuck_w[OF s(2)] have h: "handed s = successes env_w"
    and pg: "page_count (pdf s) =
          length (filter (\<lambda>(i, img). \<exists>m b. img = Some m \<and> png_Encode env_w m = Inr b)
            (successes env_w))"
    and e1: "\<And>i img e. FirstImageIndex env_w \<le> i \<and> i \<le> LastImageIndex env_w \<and>
            DownloadImage env_w (image_url i) = Returns (img, Some e) \<Longrightarrow>
            error_downloading_line i e \<in> set (stdout s)"
    and e2: "\<And>i m e. (i, Some m) \<in> set (successes env_w) \<and> png_Encode env_w m = Inl e \<Longrightarrow>
            error_adding_line i (encode_failed e) \<in> set (stdout s)"
    and e3: "\<And>msg. OutputFileAndClose env_w (pdf s) ''final_output.pdf'' = Some msg \<Longrightarrow>
            error_saving_line msg \<in> set (stdout s)"
    by blast+
  from pg have p1: "page_count (pdf s) = 1" by (simp add: successes_w encode_w)
  have l1: "error_downloading_line 2 (download_failed ''connection refused'') \<in> set (stdout s)"
    by (rule e1) (simp add: env_w_fields image_url_w download_w)
  have l2: "error_adding_line 3 (encode_failed ''png: invalid format: invalid image size'')
       \<in> set (stdout s)"
    by (rule e2[of 3 "RGBAImage rgba3"]) (simp add: successes_w encode_w)
  have l3: "error_saving_line ''permission denied'' \<in> set (stdout s)"
    by (rule e3) (simp add: env_w_fields)
  have n: "length sched_w = 36" by (simp add: sched_w_def)
  from s r w decodes_fit_w stuck_w[OF s(2)] np b h p1 l1 l2 l3 n show ?thesis
    by (auto simp add: successes_w)
qed

lemma env_b_fields:
  "FirstImageIndex env_b = 1" "LastImageIndex env_b = 3" "WorkerCount env_b = 2"
  by (simp_all add: env_b_def env_w_def)

lemma download_b:
  "DownloadImage env_b ''XX/1.XX'' = Returns (Some (RGBAImage rgba1), None)"
  "DownloadImage env_b ''XX/2.XX'' = Returns (None, Some (download_failed ''connection refused''))"
  "DownloadImage env_b ''XX/3.XX'' = Returns (Some (RGBAImage rgba1), None)"
  using NewRGBA_fits[OF fits_img1]
  by (simp_all add: DownloadImage_def env_b_def env_w_def convertTo8Bit_def rgba1_def)

lemma encode_b: "png_Encode env_b (RGBAImage rgba1) = Inr [137, 80, 78, 71]"
  using encode_w(1) by (simp add: env_b_def)

lemma rejected_b:
  "pdf_Error env_b (page_calls 1 m [137, 80, 78, 71] @ doc) = Some ''page rejected''"
  "OutputFileAndClose env_b (page_calls 1 m [137, 80, 78, 71] @ doc) path = Some ''page rejected''"
  by (simp_all add: env_b_def page_calls_def Let_def itoa_digits)

lemma not_adding_line:
  "error_adding_line i e \<noteq> downloading_line a b"
  "error_adding_line i e \<noteq> error_downloading_line c x"
  "error_adding_line i e \<noteq> error_saving_line y"
  "error_adding_line i e \<noteq> success_line"
  by (simp_all add: error_adding_line_def downloading_line_def error_downloading_line_def
      error_saving_line_def success_line_def)

text \<open>
  A document that rejects a page. In the run of \<open>env_b\<close> the document holds an
  error from the calls of page 1 on, and \<open>AddImageToPDF\<close> returns no error for
  page 1: no line \<open>Error adding image\<close> is printed, the page is not skipped (its
  three calls are made, and those of page 3 after them), and the error is seen only
  when the document is written.
\<close>

theorem builder_error_not_reported:
  "\<exists>s. run env_b sched_w = Some s \<and> (\<forall>t. step env_b t s = None) \<and>
     pc s = MDone \<and> \<not> panicked s \<and>
     AddImageToPDF env_b [] (Some (RGBAImage rgba1)) 1 =
       Returns (page_calls 1 (RGBAImage rgba1) [137, 80, 78, 71], None) \<and>
     pdf_Error env_b (page_calls 1 (RGBAImage rgba1) [137, 80, 78, 71]) = Some ''page rejected'' \<and>
     pdf s = page_calls 1 (RGBAImage rgba1) [137, 80, 78, 71] @
             page_calls 3 (RGBAImage rgba1) [137, 80, 78, 71] \<and>
     page_count (pdf s) = 2 \<and>
     stdout s = [downloading_line 1 1, downloading_line 2 2, downloading_line 2 3,
        error_downloading_line 2 (download_failed ''connection refused''),
        error_saving_line ''page rejected'', success_line] \<and>
     (\<forall>i e. error_adding_line i e \<notin> set (stdout s))"
proof -
  have "\<exists>s. run env_b sched_w = Some s \<and> pc s = MDone \<and> \<not> panicked s \<and>
     pdf s = page_calls 1 (RGBAImage rgba1) [137, 80, 78, 71] @
             page_calls 3 (RGBAImage rgba1) [137, 80, 78, 71] \<and>
     stdout s = [downloading_line 1 1, downloading_line 2 2, downloading_line 2 3,
        error_downloading_line 2 (download_failed ''connection refused''),
        error_saving_line ''page rejected'', success_line]"
    by (simp add: run_def sched_w_def init_def step_def main_step_def worker_step_def
      closer_step_def panic_def make_chan_def env_b_fields image_url_w download_b encode_b
      rejected_b collect_body_def AddImageToPDF_def Let_def)
  then obtain s where s: "run env_b sched_w = Some s" "pc s = MDone" "\<not> panicked s"
     "pdf s = page_calls 1 (RGBAImage rgba1) [137, 80, 78, 71] @
             page_calls 3 (RGBAImage rgba1) [137, 80, 78, 71]"
     "stdout s = [downloading_line 1 1, downloading_line 2 2, downloading_line 2 3,
        error_downloading_line 2 (download_failed ''connection refused''),
        error_saving_line ''page rejected'', success_line]" by blast
  from s(2) have st: "\<forall>t. step env_b t s = None" by (simp add: step_def)
  have a: "AddImageToPDF env_b [] (Some (RGBAImage rgba1)) 1 =
       Returns (page_calls 1 (RGBAImage rgba1) [137, 80, 78, 71], None)"
    by (simp add: AddImageToPDF_def encode_b)
  have e: "pdf_Error env_b (page_calls 1 (RGBAImage rgba1) [137, 80, 78, 71]) = Some ''page rejected''"
    using rejected_b(1)[of "RGBAImage rgba1" "[]"] by simp
  have pc: "page_count (pdf s) = 2" by (simp add: s(4) page_count_def page_calls_def Let_def)
  have n: "\<forall>i e. error_adding_line i e \<notin> set (stdout s)"
    by (simp add: s(5) not_adding_line)
  from s st a e pc n show ?thesis by blast
qed

text \<open>
  C10: the success message is always the last line. Take a configuration whose channel
  size is not negative and a decoder that returns images whose buffers can be allocated.
  Every run can be continued to its end; and when a run has come to its end, its last
  line of output is \<open>PDF created successfully as final_output.pdf\<close>, also when
  writing the document failed: then the line before it is the report of that failure.
\<close>

theorem success_line_printed_last:
  assumes "FirstImageIndex env \<le> LastImageIndex env + 1" and "decodes_fit env"
    and "run env sched = Some s"
  shows "(\<exists>sched' s'. run env (sched @ sched') = Some s' \<and> (\<forall>t. step env t s' = None)) \<and>
     ((\<forall>t. step env t s = None) \<longrightarrow>
        stdout s \<noteq> [] \<and> last (stdout s) = success_line \<and>
        (\<forall>msg. OutputFileAndClose env (pdf s) ''final_output.pdf'' = Some msg \<longrightarrow>
           suffix [error_saving_line msg, success_line] (stdout s)))"
proof -
  have c: "\<exists>sched' s'. run env (sched @ sched') = Some s' \<and> (\<forall>t. step env t s' = None)"
    using run_can_finish[OF assms] by blast
  have e: "stdout s \<noteq> [] \<and> last (stdout s) = success_line \<and>
        (\<forall>msg. OutputFileAndClose env (pdf s) ''final_output.pdf'' = Some msg \<longrightarrow>
           suffix [error_saving_line msg, success_line] (stdout s))"
    if st: "\<forall>t. step env t s = None"
  proof -
    have d: "pc s = MDone" by (rule stuck_done(1)[OF assms st])
    from Inv_run[OF assms(3)] have "inv_out env s" by (simp add: Inv_def)
    with d have sf: "suffix (save_lines env (pdf s) @ [success_line]) (stdout s)"
      by (simp add: inv_out_def)
    then obtain pre where pre: "stdout s = pre @ save_lines env (pdf s) @ [success_line]"
      by (auto simp add: suffix_def)
    then have a: "stdout s \<noteq> []" "last (stdout s) = success_line" by simp_all
    have "suffix [error_saving_line msg, success_line] (stdout s)"
      if "OutputFileAndClose env (pdf s) ''final_output.pdf'' = Some msg" for msg
      using sf that by (simp add: save_lines_def)
    with a show ?thesis by blast
  qed
  from c e show ?thesis by blast
qed

theorem success_line_printed_last_witness:
  "\<exists>s. run env_w sched_w = Some s \<and> (\<forall>t. step env_w t s = None) \<and>
     FirstImageIndex env_w \<le> LastImageIndex env_w + 1 \<and> decodes_fit env_w \<and>
     OutputFileAndClose env_w (pdf s) ''final_output.pdf'' = Some ''permission denied'' \<and>
     last (stdout s) = success_line \<and>
     suffix [error_saving_line ''permission denied'', success_line] (stdout s)"
proof -
  from run_w obtain s where s: "run env_w sched_w = Some s" "pc s = MDone" by auto
  have r: "FirstImageIndex env_w \<le> LastImageIndex env_w + 1" by (simp add: env_w_fields)
  have o: "OutputFileAndClose env_w (pdf s) ''final_output.pdf'' = Some ''permission denied''"
    by (simp add: env_w_fields)
  from success_line_printed_last[OF r decodes_fit_w s(1)] stuck_w[OF s(2)] o
  have "last (stdout s) = success_line"
    "suffix [error_saving_line ''permission denied'', success_line] (stdout s)" by auto
  with s r o decodes_fit_w stuck_w[OF s(2)] show ?thesis by blast
qed

text \<open>
  When the range is empty with \<open>first = last + 1\<close> the channels have size 0 and every
  run ends normally with nothing handed to \<open>AddImageToPDF\<close> and no page added.
\<close>

lemma empty_range_size_zero:
  assumes "FirstImageIndex env = LastImageIndex env + 1" and "decodes_fit env"
    and "run env sched = Some s" and "\<forall>t. step env t s = None"
  shows "pc s = MDone \<and> \<not> panicked s \<and> handed s = [] \<and> pdf s = [] \<and> page_count (pdf s) = 0"
proof -
  from assms(1) have r: "FirstImageIndex env \<le> LastImageIndex env + 1" by simp
  note d = stuck_done[OF r assms(2,3,4)]
  from Inv_run[OF assms(3)] have ib: "inv_build env s" by (simp add: Inv_def)
  with d(1) have "handed s = ordered (FirstImageIndex env) (LastImageIndex env) (imageMap s)"
    by (simp add: inv_build_def)
  with assms(1) have h: "handed s = []" by (simp add: ordered_empty)
  with ib have "pdf s = []" by (simp add: inv_build_def build_doc_def)
  with d h show ?thesis by (simp add: page_count_def)
qed

text \<open>
  C3 (an empty range, \<open>first > last\<close>, gives an empty sequence and a document with no
  page, without error). With \<open>first = 3\<close> and \<open>last = 1\<close> the size passed to
  \<open>make\<close> is \<open>-1\<close>: the first step of \<open>main\<close> panics, no other goroutine
  exists yet, nothing runs afterwards, and no document is written.
\<close>

theorem negative_range_panics:
  "LastImageIndex env_neg - FirstImageIndex env_neg + 1 = - 1 \<and>
   run env_neg [TMain] = Some (init\<lparr>panicked := True\<rparr>) \<and>
   step env_neg TCloser init = None \<and>
   (\<forall>k. step env_neg (TWorker k) init = None) \<and>
   (\<forall>t. step env_neg t (init\<lparr>panicked := True\<rparr>) = None) \<and>
   pc (init\<lparr>panicked := True\<rparr>) = MStart \<and> stdout (init\<lparr>panicked := True\<rparr>) = []"
  by (simp add: run_def env_neg_def env_w_def init_def step_def main_step_def worker_step_def
      closer_step_def panic_def Let_def)

section \<open>Further properties\<close>

text \<open>
  Normalization of an image whose bounds start at the origin: the result has the bounds
  of the source, and its colour at every coordinate of the bounds is the source's colour
  with each channel cut to its high byte.
\<close>

theorem normalization_exact_at_origin:
  assumes "fits (Bounds img)" and "Min_r (Bounds img) = Pt 0 0"
  shows "\<exists>q. convertTo8Bit img = Returns q \<and> Rect q = Bounds img \<and>
     (\<forall>x y. In (Pt x y) (Bounds img) \<longrightarrow> RGBAAt q x y = to8 (At img x y))"
proof -
  from convertTo8Bit_origin[OF assms] obtain q where q: "convertTo8Bit img = Returns q"
    "Rect q = Bounds img"
    and px: "\<And>x y. RGBAAt q x y =
      (if In (Pt x y) (Bounds img) then src_pixel img x y else color_zero)" by auto
  have "RGBAAt q x y = to8 (At img x y)" if i: "In (Pt x y) (Bounds img)" for x y
  proof (cases img)
    case (RGBAImage p)
    with i px[of x y] show ?thesis by (simp add: to8_RGBA_of RGBAAt_def)
  next
    case (OtherImage g)
    with i px[of x y] show ?thesis by simp
  qed
  with q show ?thesis by blast
qed

theorem normalization_exact_at_origin_witness:
  "fits (Bounds (OtherImage img1)) \<and> Min_r (Bounds (OtherImage img1)) = Pt 0 0 \<and>
   In (Pt 1 1) (Bounds (OtherImage img1)) \<and>
   (\<exists>q. convertTo8Bit (OtherImage img1) = Returns q \<and> Rect q = Bounds (OtherImage img1) \<and>
      RGBAAt q 1 1 = \<lparr>R = 128, G = 128, B = 128, A = 255\<rparr>)"
proof -
  have o: "Min_r (Bounds (OtherImage img1)) = Pt 0 0" by (simp add: img1_def)
  have i: "In (Pt 1 1) (Bounds (OtherImage img1))" by (simp add: img1_def In_def Pt_def)
  have c: "to8 (At (OtherImage img1) 1 1) = \<lparr>R = 128, G = 128, B = 128, A = 255\<rparr>"
    by (simp add: img1_def gray16_def to8_def)
  from normalization_exact_at_origin[OF fits_img1 o] i c fits_img1 o show ?thesis by auto
qed

text \<open>
  Normalization is idempotent on 8-bit RGBA bitmaps whose bounds start at the origin:
  the result has the same bounds and the same colour at every coordinate.
\<close>

theorem normalization_idempotent_at_origin:
  assumes "fits (Rect p)" and "Min_r (Rect p) = Pt 0 0"
  shows "\<exists>q. convertTo8Bit (RGBAImage p) = Returns q \<and> Rect q = Rect p \<and>
     (\<forall>x y. RGBAAt q x y = RGBAAt p x y) \<and>
     (\<exists>q'. convertTo8Bit (RGBAImage q) = Returns q' \<and> Rect q' = Rect q \<and>
        (\<forall>x y. RGBAAt q' x y = RGBAAt q x y))"
proof -
  from convertTo8Bit_origin_RGBA[OF assms] obtain q where
    q: "convertTo8Bit (RGBAImage p) = Returns q" "Rect q = Rect p"
      "\<forall>x y. RGBAAt q x y = RGBAAt p x y" by blast
  from assms q(2) have "fits (Rect q)" "Min_r (Rect q) = Pt 0 0" by simp_all
  from convertTo8Bit_origin_RGBA[OF this] q show ?thesis by blast
qed

theorem normalization_idempotent_at_origin_witness:
  "fits (Rect rgba1) \<and> Min_r (Rect rgba1) = Pt 0 0 \<and>
   (\<exists>q. convertTo8Bit (RGBAImage rgba1) = Returns q \<and> Rect q = Rect rgba1 \<and>
      RGBAAt q 1 1 = RGBAAt rgba1 1 1)"
proof -
  have r: "Rect rgba1 = Bounds_g img1" by (simp add: rgba1_def Rect_Draw_Src)
  have f: "fits (Rect rgba1)" using fits_img1 by (simp add: r)
  have o: "Min_r (Rect rgba1) = Pt 0 0" by (simp add: r img1_def)
  from normalization_idempotent_at_origin[OF f o] f o show ?thesis by blast
qed

text \<open>
  An empty range with \<open>first = last + 1\<close>: the channels have size 0, every run ends
  with \<open>main\<close> returned, nothing is handed to \<open>AddImageToPDF\<close> and the program adds
  no page.
\<close>

theorem empty_range_of_size_zero:
  assumes "FirstImageIndex env = LastImageIndex env + 1" and "decodes_fit env"
    and "run env sched = Some s" and "\<forall>t. step env t s = None"
  shows "pc s = MDone \<and> \<not> panicked s \<and> handed s = [] \<and> pdf s = [] \<and> page_count (pdf s) = 0 \<and>
    downloads s = []"
proof -
  from empty_range_size_zero[OF assms]
  have a: "pc s = MDone \<and> \<not> panicked s \<and> handed s = [] \<and> pdf s = [] \<and> page_count (pdf s) = 0" .
  from Inv_run[OF assms(3)] have "inv_jobs env s" by (simp add: Inv_def)
  with a assms(1) have "downloads s = []" by (simp add: inv_jobs_def)
  with a show ?thesis by blast
qed

lemma run_zero: "\<exists>s. run env_zero sched_zero = Some s \<and> pc s = MDone"
  by (simp add: run_def sched_zero_def init_def step_def main_step_def worker_step_def
      closer_step_def panic_def make_chan_def env_zero_def env_w_fields Let_def)

theorem empty_range_of_size_zero_witness:
  "\<exists>s. run env_zero sched_zero = Some s \<and> (\<forall>t. step env_zero t s = None) \<and>
     FirstImageIndex env_zero = LastImageIndex env_zero + 1 \<and> decodes_fit env_zero \<and>
     pc s = MDone \<and> handed s = [] \<and> page_count (pdf s) = 0"
proof -
  from run_zero obtain s where s: "run env_zero sched_zero = Some s" "pc s = MDone" by auto
  have r: "FirstImageIndex env_zero = LastImageIndex env_zero + 1" by (simp add: env_zero_def)
  have d: "decodes_fit env_zero" using decodes_fit_w by (simp add: decodes_fit_def env_zero_def)
  have st: "\<forall>t. step env_zero t s = None" using s(2) by (simp add: step_def)
  from empty_range_of_size_zero[OF r d s(1) st] s r d st show ?thesis by blast
qed

text \<open>
  No deadlock: in every state of every run in which the program has neither panicked
  nor returned from \<open>main\<close>, some goroutine can take a step.
\<close>

theorem run_never_deadlocks:
  assumes "run env sched = Some s" and "\<not> panicked s" and "pc s \<noteq> MDone"
  shows "\<exists>t. step env t s \<noteq> None"
  by (rule progress[OF Inv_run[OF assms(1)] assms(2,3)])

theorem run_never_deadlocks_witness:
  "\<exists>s. run env_w (take 29 sched_w) = Some s \<and> \<not> panicked s \<and> pc s \<noteq> MDone \<and>
     (\<exists>t. step env_w t s \<noteq> None)"
proof -
  from run_w_collect obtain s s' where s: "run env_w (take 29 sched_w) = Some s"
    "pc s = MCollect" "step env_w TMain s = Some s'" by blast
  from s(3) have np: "\<not> panicked s" by (auto simp add: step_def split: if_splits)
  from s(2) have nd: "pc s \<noteq> MDone" by simp
  from run_never_deadlocks[OF s(1) np nd] s(1) np nd show ?thesis by blast
qed

end
